theory Spec2Isabelle
  imports Complex_Main "HOL-Library.AList"
begin

section \<open>Python values\<close>

text \<open>
  The aircraft tracker is dynamically typed: the record constructor, the JSON documents
  and the query criteria all carry untyped values. They are modelled by \<open>pyval\<close>, the
  scalar values that JSON and the csv reader can produce (\<open>None\<close>, \<open>bool\<close>, \<open>int\<close>,
  \<open>float\<close>, \<open>str\<close>). A nested list or dict as the value of a field is not modelled.

  A finite \<open>float\<close> is modelled by its exact rational value, next to the three special
  values. The 53-bit rounding and the range limit of binary64 are not modelled:
  \<open>float(int)\<close> and \<open>float(str)\<close> are exact here, and there is no signed zero.

  A \<open>str\<close> is a list of characters with code points below 256.
\<close>

datatype pyfloat = Fin rat | PInf | NInf | NaN

datatype pyval = PNone | PBool bool | PInt int | PFloat pyfloat | PStr string

datatype py_error =
  TypeError | ValueError | AttributeError | KeyError | IndexError | PermissionError

type_synonym dict = "(string \<times> pyval) list"

fun is_PStr :: "pyval \<Rightarrow> bool" where
  "is_PStr (PStr s) = True"
| "is_PStr v = False"

text \<open>Truth value testing, as \<open>not value\<close> and \<open>if value\<close> use it.\<close>

fun py_truthy :: "pyval \<Rightarrow> bool" where
  "py_truthy PNone = False"
| "py_truthy (PBool b) = b"
| "py_truthy (PInt i) = (i \<noteq> 0)"
| "py_truthy (PFloat x) = (x \<noteq> Fin 0)"
| "py_truthy (PStr s) = (s \<noteq> [])"

text \<open>Comparison of floats: every comparison with \<open>nan\<close> is false.\<close>

fun fl_less :: "pyfloat \<Rightarrow> pyfloat \<Rightarrow> bool" where
  "fl_less (Fin a) (Fin b) = (a < b)"
| "fl_less (Fin a) PInf = True"
| "fl_less NInf (Fin b) = True"
| "fl_less NInf PInf = True"
| "fl_less x y = False"

definition fl_eq :: "pyfloat \<Rightarrow> pyfloat \<Rightarrow> bool" where
  "fl_eq x y = (x = y \<and> x \<noteq> NaN)"

definition fl_le :: "pyfloat \<Rightarrow> pyfloat \<Rightarrow> bool" where
  "fl_le x y = (fl_less x y \<or> fl_eq x y)"

text \<open>\<open>max(a, b)\<close> of two arguments returns \<open>a\<close> unless \<open>b > a\<close>.\<close>

definition py_max :: "pyfloat \<Rightarrow> pyfloat \<Rightarrow> pyfloat" where
  "py_max a b = (if fl_less a b then b else a)"

text \<open>\<open>==\<close> on scalars: \<open>bool\<close>, \<open>int\<close> and \<open>float\<close> compare by numeric value.\<close>

fun num_of :: "pyval \<Rightarrow> pyfloat option" where
  "num_of (PBool b) = Some (Fin (if b then 1 else 0))"
| "num_of (PInt i) = Some (Fin (of_int i))"
| "num_of (PFloat x) = Some x"
| "num_of v = None"

definition py_eq :: "pyval \<Rightarrow> pyval \<Rightarrow> bool" where
  "py_eq a b =
     (case (num_of a, num_of b) of
        (Some x, Some y) \<Rightarrow> fl_eq x y
      | (None, None) \<Rightarrow> a = b
      | _ \<Rightarrow> False)"

subsection \<open>Strings\<close>

text \<open>\<open>str.isspace\<close> on the code points below 256.\<close>

definition py_isspace :: "char \<Rightarrow> bool" where
  "py_isspace c =
     (c \<in> set [CHR 0x09, CHR 0x0A, CHR 0x0B, CHR 0x0C, CHR 0x0D, CHR 0x1C, CHR 0x1D,
                CHR 0x1E, CHR 0x1F, CHR 0x20, CHR 0x85, CHR 0xA0])"

definition py_strip :: "string \<Rightarrow> string" where
  "py_strip s = rev (dropWhile py_isspace (rev (dropWhile py_isspace s)))"

text \<open>
  \<open>str.lower\<close> on the code points below 256: the upper-case letters of ASCII and of
  Latin-1 and their lower-case forms.
\<close>

definition lower_table :: "(char \<times> char) list" where
  "lower_table =
     [(CHR ''A'', CHR ''a''), (CHR ''B'', CHR ''b''), (CHR ''C'', CHR ''c''),
      (CHR ''D'', CHR ''d''), (CHR ''E'', CHR ''e''), (CHR ''F'', CHR ''f''),
      (CHR ''G'', CHR ''g''), (CHR ''H'', CHR ''h''), (CHR ''I'', CHR ''i''),
      (CHR ''J'', CHR ''j''), (CHR ''K'', CHR ''k''), (CHR ''L'', CHR ''l''),
      (CHR ''M'', CHR ''m''), (CHR ''N'', CHR ''n''), (CHR ''O'', CHR ''o''),
      (CHR ''P'', CHR ''p''), (CHR ''Q'', CHR ''q''), (CHR ''R'', CHR ''r''),
      (CHR ''S'', CHR ''s''), (CHR ''T'', CHR ''t''), (CHR ''U'', CHR ''u''),
      (CHR ''V'', CHR ''v''), (CHR ''W'', CHR ''w''), (CHR ''X'', CHR ''x''),
      (CHR ''Y'', CHR ''y''), (CHR ''Z'', CHR ''z''), (CHR 0xC0, CHR 0xE0),
      (CHR 0xC1, CHR 0xE1), (CHR 0xC2, CHR 0xE2), (CHR 0xC3, CHR 0xE3),
      (CHR 0xC4, CHR 0xE4), (CHR 0xC5, CHR 0xE5), (CHR 0xC6, CHR 0xE6),
      (CHR 0xC7, CHR 0xE7), (CHR 0xC8, CHR 0xE8), (CHR 0xC9, CHR 0xE9),
      (CHR 0xCA, CHR 0xEA), (CHR 0xCB, CHR 0xEB), (CHR 0xCC, CHR 0xEC),
      (CHR 0xCD, CHR 0xED), (CHR 0xCE, CHR 0xEE), (CHR 0xCF, CHR 0xEF),
      (CHR 0xD0, CHR 0xF0), (CHR 0xD1, CHR 0xF1), (CHR 0xD2, CHR 0xF2),
      (CHR 0xD3, CHR 0xF3), (CHR 0xD4, CHR 0xF4), (CHR 0xD5, CHR 0xF5),
      (CHR 0xD6, CHR 0xF6), (CHR 0xD8, CHR 0xF8), (CHR 0xD9, CHR 0xF9),
      (CHR 0xDA, CHR 0xFA), (CHR 0xDB, CHR 0xFB), (CHR 0xDC, CHR 0xFC),
      (CHR 0xDD, CHR 0xFD), (CHR 0xDE, CHR 0xFE)]"

definition py_lower_char :: "char \<Rightarrow> char" where
  "py_lower_char c = (case map_of lower_table c of None \<Rightarrow> c | Some l \<Rightarrow> l)"

definition py_lower :: "string \<Rightarrow> string" where
  "py_lower s = map py_lower_char s"

subsection \<open>Decimal text of numbers\<close>

definition is_digit :: "char \<Rightarrow> bool" where
  "is_digit c = (c \<in> set ''0123456789'')"

definition digit_val :: "char \<Rightarrow> nat" where
  "digit_val c = of_char c - 48"

definition digit_char :: "nat \<Rightarrow> char" where
  "digit_char k = ''0123456789'' ! k"

fun dec_digits :: "nat \<Rightarrow> string" where
  "dec_digits n =
     (if n < 10 then [digit_char n] else dec_digits (n div 10) @ [digit_char (n mod 10)])"

declare dec_digits.simps [simp del]

text \<open>
  A group of digits of a float literal: digits, with single underscores between digits
  only.
\<close>

definition digit_group :: "string \<Rightarrow> bool" where
  "digit_group s =
     (s \<noteq> [] \<and> is_digit (hd s) \<and> is_digit (last s)
      \<and> list_all (\<lambda>c. is_digit c \<or> c = CHR ''_'') s
      \<and> \<not> list_ex (\<lambda>(a, b). a = CHR ''_'' \<and> b = CHR ''_'') (zip s (tl s)))"

definition nat_of_digits :: "string \<Rightarrow> nat" where
  "nat_of_digits s = foldl (\<lambda>a c. 10 * a + digit_val c) 0 (filter (\<lambda>c. c \<noteq> CHR ''_'') s)"

definition split_sign :: "string \<Rightarrow> bool \<times> string" where
  "split_sign s =
     (case s of
        [] \<Rightarrow> (False, [])
      | c # cs \<Rightarrow>
          if c = CHR ''-'' then (True, cs) else if c = CHR ''+'' then (False, cs) else (False, s))"

text \<open>
  An unsigned decimal literal: digits with an optional point and an optional exponent, at
  least one digit in the mantissa.
\<close>

definition parse_unsigned :: "string \<Rightarrow> rat option" where
  "parse_unsigned u =
     (let is_e = (\<lambda>c. c = CHR ''e'' \<or> c = CHR ''E'');
          m = takeWhile (\<lambda>c. \<not> is_e c) u;
          r = dropWhile (\<lambda>c. \<not> is_e c) u;
          ip = takeWhile (\<lambda>c. c \<noteq> CHR ''.'') m;
          r2 = dropWhile (\<lambda>c. c \<noteq> CHR ''.'') m;
          fp = (if r2 = [] then [] else tl r2);
          mant = (of_nat (nat_of_digits ip) :: rat)
                 + of_nat (nat_of_digits fp) / 10 ^ length (filter (\<lambda>c. c \<noteq> CHR ''_'') fp)
      in if \<not> ((ip = [] \<or> digit_group ip) \<and> (fp = [] \<or> digit_group fp)
                \<and> (ip \<noteq> [] \<or> fp \<noteq> []))
         then None
         else if r = [] then Some mant
         else (case split_sign (tl r) of
                 (eneg, ed) \<Rightarrow>
                   if \<not> digit_group ed then None
                   else if eneg then Some (mant / 10 ^ nat_of_digits ed)
                   else Some (mant * 10 ^ nat_of_digits ed)))"

text \<open>
  \<open>float(s)\<close> for a string: surrounding whitespace is dropped, then an optional sign and
  either \<open>inf\<close>, \<open>infinity\<close>, \<open>nan\<close> (in any case) or a decimal literal. \<open>None\<close> stands for
  the \<open>ValueError\<close>.
\<close>

definition parse_float :: "string \<Rightarrow> pyfloat option" where
  "parse_float s =
     (case split_sign (py_strip s) of
        (neg, u) \<Rightarrow>
          if py_lower u = ''inf'' \<or> py_lower u = ''infinity''
          then Some (if neg then NInf else PInf)
          else if py_lower u = ''nan'' then Some NaN
          else (case parse_unsigned u of
                  None \<Rightarrow> None
                | Some q \<Rightarrow> Some (Fin (if neg then - q else q))))"

text \<open>\<open>float(value)\<close>.\<close>

fun py_float :: "pyval \<Rightarrow> py_error + pyfloat" where
  "py_float PNone = Inl TypeError"
| "py_float (PBool b) = Inr (Fin (if b then 1 else 0))"
| "py_float (PInt i) = Inr (Fin (of_int i))"
| "py_float (PFloat x) = Inr x"
| "py_float (PStr s) = (case parse_float s of None \<Rightarrow> Inl ValueError | Some x \<Rightarrow> Inr x)"

section \<open>The Aircraft record (src/models/aircraft.py)\<close>

text \<open>
  The four validated attributes have the type their validator returns; the five
  attributes taken from \<open>**kwargs\<close> are stored as they are passed.
\<close>

record aircraft =
  callsign :: string
  origin_country :: string
  velocity :: pyfloat
  altitude :: pyfloat
  icao24 :: pyval
  longitude :: pyval
  latitude :: pyval
  on_ground :: pyval
  vertical_rate :: pyval

text \<open>\<open>d.get(key, default)\<close>.\<close>

definition dict_get :: "dict \<Rightarrow> string \<Rightarrow> pyval \<Rightarrow> pyval" where
  "dict_get d k dflt = (case map_of d k of None \<Rightarrow> dflt | Some v \<Rightarrow> v)"

definition validate_callsign :: "pyval \<Rightarrow> string" where
  "validate_callsign v =
     (if \<not> py_truthy v \<or> \<not> is_PStr v then ''Unknown''
      else (case v of PStr s \<Rightarrow> py_strip s | _ \<Rightarrow> ''Unknown''))"

definition validate_country :: "pyval \<Rightarrow> string" where
  "validate_country v =
     (if \<not> py_truthy v \<or> \<not> is_PStr v then ''Unknown''
      else (case v of PStr s \<Rightarrow> py_strip s | _ \<Rightarrow> ''Unknown''))"

text \<open>
  \<open>float\<close> raises only \<open>TypeError\<close> and \<open>ValueError\<close> in this model, and the validators
  catch both.
\<close>

definition validate_velocity :: "pyval \<Rightarrow> pyfloat" where
  "validate_velocity v =
     (case py_float v of Inr val \<Rightarrow> py_max (Fin 0) val | Inl e \<Rightarrow> Fin 0)"

definition validate_altitude :: "pyval \<Rightarrow> pyfloat" where
  "validate_altitude v =
     (case py_float v of Inr val \<Rightarrow> py_max (Fin (- 1000)) val | Inl e \<Rightarrow> Fin 0)"

text \<open>\<open>Aircraft.__init__\<close>; \<open>kw\<close> is the \<open>**kwargs\<close> dict.\<close>

definition new_aircraft :: "pyval \<Rightarrow> pyval \<Rightarrow> pyval \<Rightarrow> pyval \<Rightarrow> dict \<Rightarrow> aircraft" where
  "new_aircraft cs co v a kw =
     \<lparr> callsign = validate_callsign cs,
       origin_country = validate_country co,
       velocity = validate_velocity v,
       altitude = validate_altitude a,
       icao24 = dict_get kw ''icao24'' (PStr ''Unknown''),
       longitude = dict_get kw ''longitude'' (PFloat (Fin 0)),
       latitude = dict_get kw ''latitude'' (PFloat (Fin 0)),
       on_ground = dict_get kw ''on_ground'' (PBool True),
       vertical_rate = dict_get kw ''vertical_rate'' (PFloat (Fin 0)) \<rparr>"

definition from_dict :: "dict \<Rightarrow> aircraft" where
  "from_dict data =
     new_aircraft
       (dict_get data ''callsign'' (PStr ''Unknown''))
       (dict_get data ''origin_country'' (PStr ''Unknown''))
       (dict_get data ''velocity'' (PFloat (Fin 0)))
       (dict_get data ''altitude'' (PFloat (Fin 0)))
       [(''icao24'', dict_get data ''icao24'' (PStr ''Unknown'')),
        (''longitude'', dict_get data ''longitude'' (PFloat (Fin 0))),
        (''latitude'', dict_get data ''latitude'' (PFloat (Fin 0))),
        (''on_ground'', dict_get data ''on_ground'' (PBool True)),
        (''vertical_rate'', dict_get data ''vertical_rate'' (PFloat (Fin 0)))]"

definition to_dict :: "aircraft \<Rightarrow> dict" where
  "to_dict r =
     [(''callsign'', PStr (callsign r)),
      (''origin_country'', PStr (origin_country r)),
      (''velocity'', PFloat (velocity r)),
      (''altitude'', PFloat (altitude r)),
      (''icao24'', icao24 r),
      (''longitude'', longitude r),
      (''latitude'', latitude r),
      (''on_ground'', on_ground r),
      (''vertical_rate'', vertical_rate r)]"

text \<open>\<open>validate_altitude\<close> of src/utils/validators.py, the standalone range check.\<close>

definition check_altitude :: "pyval \<Rightarrow> bool" where
  "check_altitude v =
     (case py_float v of
        Inr alt \<Rightarrow> fl_le (Fin (- 1000)) alt \<and> fl_le alt (Fin 50000)
      | Inl e \<Rightarrow> False)"


section \<open>Sequencing of calls that may raise\<close>

text \<open>
  A call that may raise returns \<open>py_error + 'a\<close>; \<open>Inl e\<close> is the exception \<open>e\<close> leaving the
  call. \<open>on_ok\<close> runs the rest of a body after a call that returned.
\<close>

definition on_ok :: "'e + 'a \<Rightarrow> ('a \<Rightarrow> 'e + 'b) \<Rightarrow> 'e + 'b" where
  "on_ok m f = (case m of Inl e \<Rightarrow> Inl e | Inr x \<Rightarrow> f x)"

text \<open>A list comprehension whose element expression may raise.\<close>

fun map_err :: "('a \<Rightarrow> 'e + 'b) \<Rightarrow> 'a list \<Rightarrow> 'e + 'b list" where
  "map_err f [] = Inr []"
| "map_err f (x # xs) = on_ok (f x) (\<lambda>y. on_ok (map_err f xs) (\<lambda>ys. Inr (y # ys)))"

text \<open>A list comprehension whose condition may raise.\<close>

fun filter_err :: "('a \<Rightarrow> 'e + bool) \<Rightarrow> 'a list \<Rightarrow> 'e + 'a list" where
  "filter_err p [] = Inr []"
| "filter_err p (x # xs) =
     on_ok (p x) (\<lambda>b. on_ok (filter_err p xs) (\<lambda>ys. Inr (if b then x # ys else ys)))"

text \<open>\<open>d[key]\<close> and \<open>d.update(e)\<close>.\<close>

definition dict_item :: "dict \<Rightarrow> string \<Rightarrow> py_error + pyval" where
  "dict_item d k = (case map_of d k of None \<Rightarrow> Inl KeyError | Some v \<Rightarrow> Inr v)"

definition dict_update :: "dict \<Rightarrow> dict \<Rightarrow> dict" where
  "dict_update d e = fold (\<lambda>(k, v). AList.update k v) e d"

section \<open>Text of values\<close>

text \<open>
  \<open>f"{x:.2f}"\<close> rounds the exact value of the float to the given number of decimals,
  ties to even, and keeps the sign of a negative value that rounds to zero.
\<close>

definition round_half_even :: "rat \<Rightarrow> int" where
  "round_half_even x =
     (let f = \<lfloor>x\<rfloor>; r = x - of_int f
      in if r < 1 / 2 then f else if 1 / 2 < r then f + 1 else if even f then f else f + 1)"

definition fmt_fixed :: "nat \<Rightarrow> rat \<Rightarrow> string" where
  "fmt_fixed d q =
     (let n = nat (round_half_even (\<bar>q\<bar> * 10 ^ d));
          fs = dec_digits (n mod 10 ^ d)
      in (if q < 0 then ''-'' else []) @ dec_digits (n div 10 ^ d)
         @ (if d = 0 then [] else ''.'' @ replicate (d - length fs) (CHR ''0'') @ fs))"

fun fmt_float :: "nat \<Rightarrow> pyfloat \<Rightarrow> string" where
  "fmt_float d (Fin q) = fmt_fixed d q"
| "fmt_float d PInf = ''inf''"
| "fmt_float d NInf = ''-inf''"
| "fmt_float d NaN = ''nan''"

text \<open>
  The format specification \<open>.df\<close> applied to a value: \<open>None\<close> raises \<open>TypeError\<close>, a
  string raises \<open>ValueError\<close>, \<open>bool\<close> and \<open>int\<close> are formatted as floats.
\<close>

fun format_f :: "nat \<Rightarrow> pyval \<Rightarrow> py_error + string" where
  "format_f d PNone = Inl TypeError"
| "format_f d (PBool b) = Inr (fmt_fixed d (if b then 1 else 0))"
| "format_f d (PInt i) = Inr (fmt_fixed d (of_int i))"
| "format_f d (PFloat x) = Inr (fmt_float d x)"
| "format_f d (PStr s) = Inl ValueError"

text \<open>
  \<open>str(x)\<close>. The text of a finite float is its \<open>repr\<close>, the shortest text that \<open>float\<close>
  reads back as the same float; all that is kept of it here is that \<open>float\<close> reads it
  back.
\<close>

definition float_repr :: "pyfloat \<Rightarrow> string" where
  "float_repr x =
     (case x of
        PInf \<Rightarrow> ''inf''
      | NInf \<Rightarrow> ''-inf''
      | NaN \<Rightarrow> ''nan''
      | Fin q \<Rightarrow> (SOME s. parse_float s = Some (Fin q)))"

fun py_str :: "pyval \<Rightarrow> string" where
  "py_str PNone = ''None''"
| "py_str (PBool b) = (if b then ''True'' else ''False'')"
| "py_str (PInt i) = (if i < 0 then ''-'' else []) @ dec_digits (nat \<bar>i\<bar>)"
| "py_str (PFloat x) = float_repr x"
| "py_str (PStr s) = s"

section \<open>The CSV row of a record (src/storage/csv_storage.py)\<close>

definition fieldnames :: "string list" where
  "fieldnames =
     [''callsign'', ''origin_country'', ''velocity'', ''altitude'', ''icao24'',
      ''longitude'', ''latitude'', ''on_ground'', ''vertical_rate'']"

text \<open>
  \<open>_aircraft_to_row\<close>. The formats of longitude, latitude and vertical rate raise on a
  value that is not a number; the first one that raises ends the call.
\<close>

definition aircraft_to_row :: "aircraft \<Rightarrow> py_error + dict" where
  "aircraft_to_row a =
     on_ok (format_f 6 (longitude a)) (\<lambda>lon.
     on_ok (format_f 6 (latitude a)) (\<lambda>lat.
     on_ok (format_f 2 (vertical_rate a)) (\<lambda>vr.
       Inr [(''callsign'', PStr (callsign a)),
            (''origin_country'', PStr (origin_country a)),
            (''velocity'', PStr (fmt_float 2 (velocity a))),
            (''altitude'', PStr (fmt_float 2 (altitude a))),
            (''icao24'', icao24 a),
            (''longitude'', PStr lon),
            (''latitude'', PStr lat),
            (''on_ground'', PStr (py_str (on_ground a))),
            (''vertical_rate'', PStr vr)])))"

text \<open>\<open>value.lower()\<close>: only a string has the method.\<close>

fun lower_of :: "pyval \<Rightarrow> py_error + string" where
  "lower_of (PStr s) = Inr (py_lower s)"
| "lower_of v = Inl AttributeError"

text \<open>
  \<open>_row_to_aircraft\<close>. The arguments of the constructor are evaluated in the order they
  are written; a missing column raises \<open>KeyError\<close>, a cell that \<open>float\<close> rejects raises
  \<open>ValueError\<close> or \<open>TypeError\<close>.
\<close>

definition row_to_aircraft :: "dict \<Rightarrow> py_error + aircraft" where
  "row_to_aircraft row =
     on_ok (dict_item row ''callsign'') (\<lambda>cs.
     on_ok (dict_item row ''origin_country'') (\<lambda>co.
     on_ok (on_ok (dict_item row ''velocity'') py_float) (\<lambda>v.
     on_ok (on_ok (dict_item row ''altitude'') py_float) (\<lambda>al.
     on_ok (dict_item row ''icao24'') (\<lambda>ic.
     on_ok (on_ok (dict_item row ''longitude'') py_float) (\<lambda>lon.
     on_ok (on_ok (dict_item row ''latitude'') py_float) (\<lambda>lat.
     on_ok (on_ok (dict_item row ''on_ground'') lower_of) (\<lambda>og.
     on_ok (on_ok (dict_item row ''vertical_rate'') py_float) (\<lambda>vr.
       Inr (new_aircraft cs co (PFloat v) (PFloat al)
              [(''icao24'', ic),
               (''longitude'', PFloat lon),
               (''latitude'', PFloat lat),
               (''on_ground'', PBool (og = ''true'')),
               (''vertical_rate'', PFloat vr)]))))))))))"

section \<open>The JSON store (src/storage/json_storage.py)\<close>

text \<open>
  The file system and the \<open>json\<close> library are the environment of the store. A backing
  file is modelled by what \<open>open\<close> and \<open>json.load\<close> make of it: it is missing, it cannot be
  opened for another reason, its text is not JSON, or it holds a JSON array. An element
  of the array is an object or another scalar value. A JSON document that is not an array
  is not modelled. \<open>jwritable\<close> tells whether opening the file for writing succeeds.
\<close>

datatype json_elem = JObj dict | JOther pyval

datatype json_file = JMissing | JUnreadable | JMalformed | JArray "json_elem list"

record json_store =
  jfile :: json_file
  jwritable :: bool

text \<open>
  \<open>_load_data\<close> catches \<open>JSONDecodeError\<close> and \<open>FileNotFoundError\<close>; any other failure of
  \<open>open\<close> leaves the call.
\<close>

definition json_load_data :: "json_store \<Rightarrow> py_error + json_elem list" where
  "json_load_data st =
     (case jfile st of
        JMissing \<Rightarrow> Inr []
      | JMalformed \<Rightarrow> Inr []
      | JUnreadable \<Rightarrow> Inl PermissionError
      | JArray xs \<Rightarrow> Inr xs)"

text \<open>\<open>_save_data\<close> catches \<open>IOError\<close> and reports it as \<open>False\<close>.\<close>

definition json_save_data :: "json_store \<Rightarrow> json_elem list \<Rightarrow> bool \<times> json_store" where
  "json_save_data st data =
     (if jwritable st then (True, st\<lparr>jfile := JArray data\<rparr>) else (False, st))"

text \<open>\<open>__init__\<close> with \<open>_ensure_file_exists\<close>: a missing file is created with an empty array.\<close>

definition json_init :: "json_store \<Rightarrow> json_store" where
  "json_init st = (if jfile st = JMissing then snd (json_save_data st []) else st)"

text \<open>
  The scan of \<open>add_aircraft\<close> and of \<open>add_multiple_aircraft\<close>: the first element whose
  callsign equals the given one is updated. \<open>Inr None\<close> is a scan that ends without a
  match; an element that is not an object has no \<open>get\<close>.
\<close>

fun json_scan :: "string \<Rightarrow> dict \<Rightarrow> json_elem list \<Rightarrow> py_error + json_elem list option" where
  "json_scan cs ad [] = Inr None"
| "json_scan cs ad (JOther v # xs) = Inl AttributeError"
| "json_scan cs ad (JObj d # xs) =
     (if py_eq (dict_get d ''callsign'' PNone) (PStr cs)
      then Inr (Some (JObj (dict_update d ad) # xs))
      else on_ok (json_scan cs ad xs)
             (\<lambda>r. Inr (case r of None \<Rightarrow> None | Some ys \<Rightarrow> Some (JObj d # ys))))"

definition json_add_aircraft :: "aircraft \<Rightarrow> json_store \<Rightarrow> py_error + bool \<times> json_store" where
  "json_add_aircraft a st =
     on_ok (json_load_data st) (\<lambda>data.
     on_ok (json_scan (callsign a) (to_dict a) data) (\<lambda>r.
       case r of
         Some data' \<Rightarrow> Inr (json_save_data st data')
       | None \<Rightarrow> Inr (json_save_data st (data @ [JObj (to_dict a)]))))"

text \<open>The loop of \<open>add_multiple_aircraft\<close>, with the list and the counter it carries.\<close>

fun json_add_each ::
  "aircraft list \<Rightarrow> json_elem list \<Rightarrow> nat \<Rightarrow> py_error + json_elem list \<times> nat" where
  "json_add_each [] data n = Inr (data, n)"
| "json_add_each (a # as) data n =
     on_ok (json_scan (callsign a) (to_dict a) data) (\<lambda>r.
       case r of
         Some data' \<Rightarrow> json_add_each as data' (n + 1)
       | None \<Rightarrow> json_add_each as (data @ [JObj (to_dict a)]) (n + 1))"

text \<open>The result of the save is dropped.\<close>

definition json_add_multiple_aircraft ::
  "aircraft list \<Rightarrow> json_store \<Rightarrow> py_error + nat \<times> json_store" where
  "json_add_multiple_aircraft as st =
     on_ok (json_load_data st) (\<lambda>data.
     on_ok (json_add_each as data 0) (\<lambda>(data', added_count).
       Inr (added_count, snd (json_save_data st data'))))"

definition is_substring :: "string \<Rightarrow> string \<Rightarrow> bool" where
  "is_substring k s = list_ex (\<lambda>i. take (length k) (drop i s) = k) [0..<Suc (length s)]"

text \<open>
  The inner loop of \<open>get_aircraft\<close>: \<open>key not in item or item[key] != value\<close> ends the loop
  with no match. On a string element \<open>in\<close> is the substring test and \<open>item[key]\<close> raises; on
  any other scalar \<open>in\<close> raises.
\<close>

fun json_matches :: "json_elem \<Rightarrow> dict \<Rightarrow> py_error + bool" where
  "json_matches item [] = Inr True"
| "json_matches (JObj d) ((k, v) # cs) =
     (case map_of d k of
        None \<Rightarrow> Inr False
      | Some x \<Rightarrow> if \<not> py_eq x v then Inr False else json_matches (JObj d) cs)"
| "json_matches (JOther (PStr s)) ((k, v) # cs) =
     (if \<not> is_substring k s then Inr False else Inl TypeError)"
| "json_matches (JOther x) ((k, v) # cs) = Inl TypeError"

fun elem_from_dict :: "json_elem \<Rightarrow> py_error + aircraft" where
  "elem_from_dict (JObj d) = Inr (from_dict d)"
| "elem_from_dict (JOther v) = Inl AttributeError"

definition cast_to_object_list :: "json_elem list \<Rightarrow> py_error + aircraft list" where
  "cast_to_object_list data_list = map_err elem_from_dict data_list"

text \<open>\<open>criteria\<close> is \<open>None\<close> or a dict; \<open>not criteria\<close> holds for \<open>None\<close> and for the empty dict.\<close>

definition json_get_aircraft :: "dict option \<Rightarrow> json_store \<Rightarrow> py_error + aircraft list" where
  "json_get_aircraft criteria st =
     on_ok (json_load_data st) (\<lambda>data.
       case criteria of
         None \<Rightarrow> cast_to_object_list data
       | Some c \<Rightarrow>
           if c = [] then cast_to_object_list data
           else on_ok (filter_err (\<lambda>item. json_matches item c) data) cast_to_object_list)"

definition json_get_all :: "json_store \<Rightarrow> py_error + aircraft list" where
  "json_get_all st = on_ok (json_load_data st) cast_to_object_list"

fun json_keep :: "string \<Rightarrow> json_elem \<Rightarrow> py_error + bool" where
  "json_keep cs (JObj d) = Inr (\<not> py_eq (dict_get d ''callsign'' PNone) (PStr cs))"
| "json_keep cs (JOther v) = Inl AttributeError"

definition json_delete_aircraft :: "string \<Rightarrow> json_store \<Rightarrow> py_error + bool \<times> json_store" where
  "json_delete_aircraft cs st =
     on_ok (json_load_data st) (\<lambda>data.
     on_ok (filter_err (json_keep cs) data) (\<lambda>new_data.
       if length new_data < length data then Inr (json_save_data st new_data)
       else Inr (False, st)))"

definition json_clear :: "json_store \<Rightarrow> bool \<times> json_store" where
  "json_clear st = json_save_data st []"

definition json_count :: "json_store \<Rightarrow> py_error + nat" where
  "json_count st = on_ok (json_load_data st) (\<lambda>data. Inr (length data))"

section \<open>The CSV store (src/storage/csv_storage.py)\<close>

text \<open>
  A backing file is modelled by what \<open>open\<close> and \<open>csv.DictReader\<close> make of it: it is
  missing, it cannot be opened for another reason, or the reader yields a list of rows,
  each a dict from the names of the header to the text of a cell (\<open>None\<close> for a cell that
  a short line lacks). In \<open>CBroken\<close> the reader raises \<open>csv.Error\<close> after the rows it
  yielded. A line with more cells than the header is not modelled. A dict is an
  association list with distinct keys, in insertion order.
\<close>

datatype csv_file = CMissing | CUnreadable | CRows "dict list" | CBroken "dict list"

record csv_store =
  cfile :: csv_file
  cwritable :: bool

text \<open>\<open>any(row.values())\<close>.\<close>

definition any_values :: "dict \<Rightarrow> bool" where
  "any_values row = list_ex (\<lambda>(k, v). py_truthy v) row"

text \<open>
  \<open>_load_data\<close> skips the rows without a non-empty cell and catches \<open>FileNotFoundError\<close>
  and \<open>csv.Error\<close>, keeping the rows read so far.
\<close>

definition csv_load_data :: "csv_store \<Rightarrow> py_error + dict list" where
  "csv_load_data st =
     (case cfile st of
        CMissing \<Rightarrow> Inr []
      | CUnreadable \<Rightarrow> Inl PermissionError
      | CRows rows \<Rightarrow> Inr (filter any_values rows)
      | CBroken rows \<Rightarrow> Inr (filter any_values rows))"

text \<open>
  The text the csv writer stores for a cell: the empty text for \<open>None\<close>, \<open>str\<close> of any
  other value.
\<close>

definition cell_text :: "pyval \<Rightarrow> string" where
  "cell_text v = (case v of PNone \<Rightarrow> [] | _ \<Rightarrow> py_str v)"

text \<open>
  The row the reader yields for a row written by \<open>DictWriter\<close> under the given header: a
  key the row lacks is written as the empty text.
\<close>

definition csv_written :: "string list \<Rightarrow> dict \<Rightarrow> dict" where
  "csv_written fs row = map (\<lambda>k. (k, PStr (cell_text (dict_get row k (PStr []))))) fs"

text \<open>
  \<open>_save_data\<close> catches \<open>IOError\<close>. The header is the keys of the first row; \<open>DictWriter\<close>
  raises \<open>ValueError\<close> on a row with a key that is not in the header, and nothing catches
  it. The new state of the file is what a later read yields.
\<close>

definition csv_save_data :: "csv_store \<Rightarrow> dict list \<Rightarrow> py_error + bool \<times> csv_store" where
  "csv_save_data st data =
     (if \<not> cwritable st then Inr (False, st)
      else (case data of
              [] \<Rightarrow> Inr (True, st\<lparr>cfile := CRows []\<rparr>)
            | first # rest \<Rightarrow>
                if list_ex (\<lambda>row. list_ex (\<lambda>k. k \<notin> set (map fst first)) (map fst row)) data
                then Inl ValueError
                else Inr (True, st\<lparr>cfile := CRows (map (csv_written (map fst first)) data)\<rparr>)))"

text \<open>
  \<open>__init__\<close> with \<open>_ensure_file_exists\<close>: a missing file is created with the header only;
  a failure of that \<open>open\<close> is not caught.
\<close>

definition csv_init :: "csv_store \<Rightarrow> py_error + csv_store" where
  "csv_init st =
     (if cfile st = CMissing
      then (if cwritable st then Inr (st\<lparr>cfile := CRows []\<rparr>) else Inl PermissionError)
      else Inr st)"

text \<open>The scan of \<open>add_aircraft\<close>: the first row with the callsign is replaced.\<close>

fun csv_replace_first :: "string \<Rightarrow> dict \<Rightarrow> dict list \<Rightarrow> dict list option" where
  "csv_replace_first cs new_row [] = None"
| "csv_replace_first cs new_row (row # rows) =
     (if py_eq (dict_get row ''callsign'' PNone) (PStr cs) then Some (new_row # rows)
      else (case csv_replace_first cs new_row rows of
              None \<Rightarrow> None
            | Some rows' \<Rightarrow> Some (row # rows')))"

definition csv_add_aircraft :: "aircraft \<Rightarrow> csv_store \<Rightarrow> py_error + bool \<times> csv_store" where
  "csv_add_aircraft a st =
     on_ok (csv_load_data st) (\<lambda>data.
     on_ok (aircraft_to_row a) (\<lambda>new_row.
       case csv_replace_first (callsign a) new_row data of
         Some data' \<Rightarrow> csv_save_data st data'
       | None \<Rightarrow> csv_save_data st (data @ [new_row])))"

text \<open>
  \<open>existing_dict\<close> of \<open>add_multiple_aircraft\<close>, from the callsign cell of a row to its
  index; a later row with the same callsign overwrites the entry.
\<close>

fun csv_index :: "dict list \<Rightarrow> nat \<Rightarrow> (pyval \<rightharpoonup> nat) \<Rightarrow> py_error + (pyval \<rightharpoonup> nat)" where
  "csv_index [] i m = Inr m"
| "csv_index (row # rows) i m =
     on_ok (dict_item row ''callsign'') (\<lambda>c. csv_index rows (i + 1) (m(c \<mapsto> i)))"

fun csv_add_each ::
  "aircraft list \<Rightarrow> dict list \<Rightarrow> (pyval \<rightharpoonup> nat) \<Rightarrow> nat \<Rightarrow> py_error + dict list \<times> nat" where
  "csv_add_each [] data m n = Inr (data, n)"
| "csv_add_each (a # as) data m n =
     on_ok (aircraft_to_row a) (\<lambda>new_row.
       case m (PStr (callsign a)) of
         Some i \<Rightarrow>
           if i < length data then csv_add_each as (data[i := new_row]) m (n + 1)
           else Inl IndexError
       | None \<Rightarrow>
           csv_add_each as (data @ [new_row]) (m(PStr (callsign a) \<mapsto> length data)) (n + 1))"

definition csv_add_multiple_aircraft ::
  "aircraft list \<Rightarrow> csv_store \<Rightarrow> py_error + nat \<times> csv_store" where
  "csv_add_multiple_aircraft as st =
     (if as = [] then Inr (0, st)
      else
        on_ok (csv_load_data st) (\<lambda>data.
        on_ok (csv_index data 0 Map.empty) (\<lambda>existing_dict.
        on_ok (csv_add_each as data existing_dict 0) (\<lambda>(data', added_count).
        on_ok (csv_save_data st data') (\<lambda>(ok, st').
          Inr (added_count, st'))))))"

text \<open>
  The coercion of a stored cell in \<open>get_aircraft\<close>: a numeric column is read by \<open>float\<close>,
  with 0.0 for an empty cell and for a cell \<open>float\<close> rejects; \<open>on_ground\<close> is compared with
  \<open>true\<close> in lower case, with \<open>False\<close> for an empty cell.
\<close>

definition csv_coerce :: "string \<Rightarrow> pyval \<Rightarrow> py_error + pyval" where
  "csv_coerce key row_value =
     (if key \<in> set [''velocity'', ''altitude'', ''longitude'', ''latitude'', ''vertical_rate'']
      then (if py_truthy row_value
            then (case py_float row_value of
                    Inr x \<Rightarrow> Inr (PFloat x)
                  | Inl e \<Rightarrow> Inr (PFloat (Fin 0)))
            else Inr (PFloat (Fin 0)))
      else if key = ''on_ground''
      then (if py_truthy row_value
            then on_ok (lower_of row_value) (\<lambda>l. Inr (PBool (l = ''true'')))
            else Inr (PBool False))
      else Inr row_value)"

fun csv_matches :: "dict \<Rightarrow> dict \<Rightarrow> py_error + bool" where
  "csv_matches row [] = Inr True"
| "csv_matches row ((key, v) # cs) =
     on_ok (csv_coerce key (dict_get row key PNone)) (\<lambda>row_value.
       if \<not> py_eq row_value v then Inr False else csv_matches row cs)"

text \<open>The outer loop of \<open>get_aircraft\<close>: a matching row is converted at once.\<close>

fun csv_select :: "dict \<Rightarrow> dict list \<Rightarrow> py_error + aircraft list" where
  "csv_select c [] = Inr []"
| "csv_select c (row # rows) =
     on_ok (csv_matches row c) (\<lambda>match.
       if match
       then on_ok (row_to_aircraft row) (\<lambda>a. on_ok (csv_select c rows) (\<lambda>as. Inr (a # as)))
       else csv_select c rows)"

definition csv_get_aircraft :: "dict option \<Rightarrow> csv_store \<Rightarrow> py_error + aircraft list" where
  "csv_get_aircraft criteria st =
     on_ok (csv_load_data st) (\<lambda>data.
       case criteria of
         None \<Rightarrow> map_err row_to_aircraft data
       | Some c \<Rightarrow> if c = [] then map_err row_to_aircraft data else csv_select c data)"

definition csv_get_all :: "csv_store \<Rightarrow> py_error + aircraft list" where
  "csv_get_all st = csv_get_aircraft None st"

text \<open>\<open>delete_aircraft\<close> drops the result of the save and returns \<open>True\<close>.\<close>

definition csv_delete_aircraft :: "string \<Rightarrow> csv_store \<Rightarrow> py_error + bool \<times> csv_store" where
  "csv_delete_aircraft cs st =
     on_ok (csv_load_data st) (\<lambda>data.
       let new_data = filter (\<lambda>row. \<not> py_eq (dict_get row ''callsign'' PNone) (PStr cs)) data
       in if length new_data < length data
          then on_ok (csv_save_data st new_data) (\<lambda>(ok, st'). Inr (True, st'))
          else Inr (False, st))"

definition csv_clear :: "csv_store \<Rightarrow> py_error + bool \<times> csv_store" where
  "csv_clear st = csv_save_data st []"

definition csv_count :: "csv_store \<Rightarrow> py_error + nat" where
  "csv_count st = on_ok (csv_load_data st) (\<lambda>data. Inr (length data))"

section \<open>Sample records\<close>

text \<open>Two records of the fixture \<open>sample_aircraft_list\<close> of tests/test_storage.\<close>

definition afl101 :: aircraft where
  "afl101 =
     \<lparr> callsign = ''AFL101'', origin_country = ''Russia'', velocity = Fin (561 / 2),
       altitude = Fin 11000, icao24 = PStr ''abc123'', longitude = PFloat (Fin (3762 / 100)),
       latitude = PFloat (Fin (5575 / 100)), on_ground = PBool False,
       vertical_rate = PFloat (Fin (21 / 2)) \<rparr>"

definition ual202 :: aircraft where
  "ual202 =
     \<lparr> callsign = ''UAL202'', origin_country = ''United States'', velocity = Fin (2603 / 10),
       altitude = Fin 10500, icao24 = PStr ''def456'', longitude = PFloat (Fin (- 7394 / 100)),
       latitude = PFloat (Fin (4069 / 100)), on_ground = PBool False,
       vertical_rate = PFloat (Fin (82 / 10)) \<rparr>"

text \<open>
  The record of \<open>test_add_duplicate_aircraft\<close>: the callsign of the first sample with
  other data.
\<close>

definition afl101_new :: aircraft where
  "afl101_new =
     \<lparr> callsign = ''AFL101'', origin_country = ''New Country'', velocity = Fin 500,
       altitude = Fin 20000, icao24 = PStr ''new123'', longitude = PFloat (Fin 0),
       latitude = PFloat (Fin 0), on_ground = PBool True, vertical_rate = PFloat (Fin 0) \<rparr>"

text \<open>
  The first sample without a position: \<open>process_aircraft_data\<close> of src/api passes the
  longitude and the latitude of a state vector on as they are, \<open>None\<close> included.
\<close>

definition afl101_nopos :: aircraft where
  "afl101_nopos = afl101\<lparr>longitude := PNone, latitude := PNone\<rparr>"

text \<open>Their rows in a CSV file.\<close>

definition afl101_csv :: dict where
  "afl101_csv =
     [(''callsign'', PStr ''AFL101''), (''origin_country'', PStr ''Russia''),
      (''velocity'', PStr ''280.50''), (''altitude'', PStr ''11000.00''),
      (''icao24'', PStr ''abc123''), (''longitude'', PStr ''37.620000''),
      (''latitude'', PStr ''55.750000''), (''on_ground'', PStr ''False''),
      (''vertical_rate'', PStr ''10.50'')]"

definition ual202_csv :: dict where
  "ual202_csv =
     [(''callsign'', PStr ''UAL202''), (''origin_country'', PStr ''United States''),
      (''velocity'', PStr ''260.30''), (''altitude'', PStr ''10500.00''),
      (''icao24'', PStr ''def456''), (''longitude'', PStr ''-73.940000''),
      (''latitude'', PStr ''40.690000''), (''on_ground'', PStr ''False''),
      (''vertical_rate'', PStr ''8.20'')]"

definition afl101_new_csv :: dict where
  "afl101_new_csv =
     [(''callsign'', PStr ''AFL101''), (''origin_country'', PStr ''New Country''),
      (''velocity'', PStr ''500.00''), (''altitude'', PStr ''20000.00''),
      (''icao24'', PStr ''new123''), (''longitude'', PStr ''0.000000''),
      (''latitude'', PStr ''0.000000''), (''on_ground'', PStr ''True''),
      (''vertical_rate'', PStr ''0.00'')]"

text \<open>The first row with a velocity that is not a number, and with an odd \<open>on_ground\<close>.\<close>

definition afl101_bad_csv :: dict where
  "afl101_bad_csv =
     [(''callsign'', PStr ''AFL101''), (''origin_country'', PStr ''Russia''),
      (''velocity'', PStr ''abc''), (''altitude'', PStr ''11000.00''),
      (''icao24'', PStr ''abc123''), (''longitude'', PStr ''37.620000''),
      (''latitude'', PStr ''55.750000''), (''on_ground'', PStr ''False''),
      (''vertical_rate'', PStr ''10.50'')]"

definition afl101_odd_csv :: dict where
  "afl101_odd_csv =
     [(''callsign'', PStr ''AFL101''), (''origin_country'', PStr ''Russia''),
      (''velocity'', PStr ''280.50''), (''altitude'', PStr ''11000.00''),
      (''icao24'', PStr ''abc123''), (''longitude'', PStr ''37.620000''),
      (''latitude'', PStr ''55.750000''), (''on_ground'', PStr ''maybe''),
      (''vertical_rate'', PStr ''10.50'')]"






section \<open>Well-formed stores\<close>

text \<open>
  What the stores write themselves: a JSON array of objects, and CSV rows under the
  header of the nine field names.
\<close>

fun is_obj :: "json_elem \<Rightarrow> bool" where
  "is_obj (JObj d) = True"
| "is_obj (JOther v) = False"

definition keys_std :: "dict \<Rightarrow> bool" where
  "keys_std row = (map fst row = fieldnames)"

text \<open>A CSV row as the store writes it: the standard header and a text in every cell.\<close>

definition std_row :: "dict \<Rightarrow> bool" where
  "std_row row = (map fst row = fieldnames \<and> list_all (\<lambda>(k, v). is_PStr v) row)"

text \<open>The key of a stored record: what \<open>get("callsign")\<close> yields on it.\<close>

definition row_callsign :: "dict \<Rightarrow> pyval" where
  "row_callsign d = dict_get d ''callsign'' PNone"

fun elem_callsign :: "json_elem \<Rightarrow> pyval" where
  "elem_callsign (JObj d) = row_callsign d"
| "elem_callsign (JOther v) = PNone"

text \<open>The rows \<open>add_aircraft\<close> of the CSV store saves: the scan, or else the append.\<close>

definition csv_put :: "string \<Rightarrow> dict \<Rightarrow> dict list \<Rightarrow> dict list" where
  "csv_put c w rows = (case csv_replace_first c w rows of Some d \<Rightarrow> d | None \<Rightarrow> rows @ [w])"

fun is_ok :: "'e + 'a \<Rightarrow> bool" where
  "is_ok (Inr x) = True"
| "is_ok (Inl e) = False"

section \<open>Valid records and stored precision\<close>

text \<open>
  The invariants of a record (the callsign and the country are trimmed and not empty, the
  velocity is at least 0, the altitude at least -1000), and the types of the five other
  fields that the data model names.
\<close>

definition valid_aircraft :: "aircraft \<Rightarrow> bool" where
  "valid_aircraft r =
     (callsign r \<noteq> [] \<and> py_strip (callsign r) = callsign r
      \<and> origin_country r \<noteq> [] \<and> py_strip (origin_country r) = origin_country r
      \<and> fl_le (Fin 0) (velocity r) \<and> fl_le (Fin (- 1000)) (altitude r))"

fun is_PFloat :: "pyval \<Rightarrow> bool" where
  "is_PFloat (PFloat x) = True"
| "is_PFloat v = False"

fun is_PBool :: "pyval \<Rightarrow> bool" where
  "is_PBool (PBool b) = True"
| "is_PBool v = False"

definition typed_aircraft :: "aircraft \<Rightarrow> bool" where
  "typed_aircraft r =
     (is_PStr (icao24 r) \<and> is_PFloat (longitude r) \<and> is_PFloat (latitude r)
      \<and> is_PBool (on_ground r) \<and> is_PFloat (vertical_rate r))"

text \<open>A float rounded to \<open>d\<close> decimals, ties to even: what a CSV cell keeps of it.\<close>

definition quantize :: "nat \<Rightarrow> pyfloat \<Rightarrow> pyfloat" where
  "quantize d x =
     (case x of
        Fin q \<Rightarrow>
          Fin ((if q < 0 then - 1 else 1) * of_int (round_half_even (\<bar>q\<bar> * 10 ^ d)) / 10 ^ d)
      | _ \<Rightarrow> x)"

fun quantize_val :: "nat \<Rightarrow> pyval \<Rightarrow> pyval" where
  "quantize_val d (PFloat x) = PFloat (quantize d x)"
| "quantize_val d v = v"

definition csv_rounded :: "aircraft \<Rightarrow> aircraft" where
  "csv_rounded r =
     r\<lparr> velocity := quantize 2 (velocity r), altitude := quantize 2 (altitude r),
        longitude := quantize_val 6 (longitude r), latitude := quantize_val 6 (latitude r),
        vertical_rate := quantize_val 2 (vertical_rate r) \<rparr>"

text \<open>A float with at most \<open>d\<close> decimals, and a record whose numbers fit their cells.\<close>

definition has_decimals :: "nat \<Rightarrow> pyfloat \<Rightarrow> bool" where
  "has_decimals d x =
     (case x of Fin q \<Rightarrow> of_int \<lfloor>q * 10 ^ d\<rfloor> = q * 10 ^ d | _ \<Rightarrow> True)"

fun val_decimals :: "nat \<Rightarrow> pyval \<Rightarrow> bool" where
  "val_decimals d (PFloat x) = has_decimals d x"
| "val_decimals d v = True"

definition fits_csv :: "aircraft \<Rightarrow> bool" where
  "fits_csv r =
     (has_decimals 2 (velocity r) \<and> has_decimals 2 (altitude r)
      \<and> val_decimals 6 (longitude r) \<and> val_decimals 6 (latitude r)
      \<and> val_decimals 2 (vertical_rate r))"

text \<open>The first sample at a velocity of 0.125 m/s.\<close>

definition afl101_slow :: aircraft where
  "afl101_slow = afl101\<lparr>velocity := Fin (1 / 8)\<rparr>"

section \<open>Criteria, as the contract words them\<close>

text \<open>
  The records a query selects, in the words of the contract: every key of the criteria
  is present and its stored value equals the value of the criteria. For the CSV store the
  stored value of a key is the cell read as a number for the five numeric columns (0.0
  for a cell that is empty, missing or not a number), as a boolean for \<open>on_ground\<close> (true
  for the text \<open>true\<close> in any case), and the text itself for any other key. These are
  compared below with the loops of the two \<open>get_aircraft\<close>.
\<close>

definition json_selected :: "dict \<Rightarrow> dict \<Rightarrow> bool" where
  "json_selected c d =
     list_all (\<lambda>(k, v). case map_of d k of None \<Rightarrow> False | Some x \<Rightarrow> py_eq x v) c"

definition numeric_fields :: "string list" where
  "numeric_fields = [''velocity'', ''altitude'', ''longitude'', ''latitude'', ''vertical_rate'']"

definition cell_value :: "string \<Rightarrow> pyval \<Rightarrow> pyval" where
  "cell_value key cell =
     (if key \<in> set numeric_fields
      then (case cell of
              PStr s \<Rightarrow> (case parse_float s of Some x \<Rightarrow> PFloat x | None \<Rightarrow> PFloat (Fin 0))
            | _ \<Rightarrow> PFloat (Fin 0))
      else if key = ''on_ground''
      then (case cell of PStr s \<Rightarrow> PBool (py_lower s = ''true'') | _ \<Rightarrow> PBool False)
      else cell)"

definition csv_selected :: "dict \<Rightarrow> dict \<Rightarrow> bool" where
  "csv_selected c row = list_all (\<lambda>(k, v). py_eq (cell_value k (dict_get row k PNone)) v) c"

text \<open>A row as the csv reader yields it: every cell is a text or \<open>None\<close>.\<close>

definition text_row :: "dict \<Rightarrow> bool" where
  "text_row row = list_all (\<lambda>(k, v). is_PStr v \<or> v = PNone) row"

section \<open>Sequences of calls\<close>

text \<open>
  A caller of a store makes the calls of the contract one after another. Each call meets
  the file as the call before left it, writable or not at that moment. A call that
  raises has not written: in both stores every \<open>raise\<close> that a store built by these calls
  can meet comes before the file is opened for writing.
\<close>

datatype store_op = Add aircraft | AddMany "aircraft list" | Delete string | Clear

definition json_apply :: "store_op \<Rightarrow> json_store \<Rightarrow> json_store" where
  "json_apply op st =
     (case op of
        Add a \<Rightarrow> (case json_add_aircraft a st of Inr (ok, st') \<Rightarrow> st' | Inl e \<Rightarrow> st)
      | AddMany as \<Rightarrow>
          (case json_add_multiple_aircraft as st of Inr (n, st') \<Rightarrow> st' | Inl e \<Rightarrow> st)
      | Delete c \<Rightarrow> (case json_delete_aircraft c st of Inr (ok, st') \<Rightarrow> st' | Inl e \<Rightarrow> st)
      | Clear \<Rightarrow> snd (json_clear st))"

fun json_run :: "(store_op \<times> bool) list \<Rightarrow> json_store \<Rightarrow> json_store" where
  "json_run [] st = st"
| "json_run ((op, w) # ops) st = json_run ops (json_apply op (st\<lparr>jwritable := w\<rparr>))"

definition csv_apply :: "store_op \<Rightarrow> csv_store \<Rightarrow> csv_store" where
  "csv_apply op st =
     (case op of
        Add a \<Rightarrow> (case csv_add_aircraft a st of Inr (ok, st') \<Rightarrow> st' | Inl e \<Rightarrow> st)
      | AddMany as \<Rightarrow>
          (case csv_add_multiple_aircraft as st of Inr (n, st') \<Rightarrow> st' | Inl e \<Rightarrow> st)
      | Delete c \<Rightarrow> (case csv_delete_aircraft c st of Inr (ok, st') \<Rightarrow> st' | Inl e \<Rightarrow> st)
      | Clear \<Rightarrow> (case csv_clear st of Inr (ok, st') \<Rightarrow> st' | Inl e \<Rightarrow> st))"

fun csv_run :: "(store_op \<times> bool) list \<Rightarrow> csv_store \<Rightarrow> csv_store" where
  "csv_run [] st = st"
| "csv_run ((op, w) # ops) st = csv_run ops (csv_apply op (st\<lparr>cwritable := w\<rparr>))"

text \<open>
  The invariants of the stores these calls build: a JSON array of objects, CSV rows the
  store wrote with a non-empty cell each, and no callsign twice.
\<close>

definition json_inv :: "json_store \<Rightarrow> bool" where
  "json_inv st =
     (case jfile st of
        JMissing \<Rightarrow> True
      | JArray data \<Rightarrow> list_all is_obj data \<and> distinct (map elem_callsign data)
      | _ \<Rightarrow> False)"

definition csv_inv :: "csv_store \<Rightarrow> bool" where
  "csv_inv st =
     (case cfile st of
        CMissing \<Rightarrow> True
      | CRows rows \<Rightarrow>
          list_all std_row rows \<and> list_all any_values rows \<and> distinct (map row_callsign rows)
      | _ \<Rightarrow> False)"

text \<open>
  What the loop of the CSV \<open>add_multiple_aircraft\<close> keeps: \<open>existing_dict\<close> maps the
  callsign of every row to the index of a row with that callsign, and a row is one that
  \<open>DictWriter\<close> writes under the standard header, keeping its callsign and a non-empty
  cell.
\<close>

definition indexed :: "dict list \<Rightarrow> (pyval \<rightharpoonup> nat) \<Rightarrow> bool" where
  "indexed data m =
     ((\<forall>k i. m k = Some i \<longrightarrow> i < length data \<and> row_callsign (data ! i) = k)
      \<and> (\<forall>i < length data. m (row_callsign (data ! i)) \<noteq> None))"

definition good_row :: "dict \<Rightarrow> bool" where
  "good_row row =
     (keys_std row \<and> any_values (csv_written fieldnames row)
      \<and> row_callsign (csv_written fieldnames row) = row_callsign row)"

section \<open>Basic facts\<close>

lemma on_ok_simps [simp]: "on_ok (Inl e) f = Inl e" "on_ok (Inr x) f = f x"
  by (simp_all add: on_ok_def)

lemma floor_rat_numeral: "\<lfloor>(numeral a :: rat) / numeral b\<rfloor> = numeral a div numeral b"
  using floor_divide_of_int_eq [of "numeral a" "numeral b", where ?'a = rat] by simp

lemma floor_rat_one_numeral: "\<lfloor>(1 :: rat) / numeral b\<rfloor> = 1 div numeral b"
  using floor_divide_of_int_eq [of 1 "numeral b", where ?'a = rat] by simp

lemmas parse_float_eval =
  parse_float_def py_strip_def py_isspace_def split_sign_def py_lower_def py_lower_char_def
  lower_table_def parse_unsigned_def digit_group_def is_digit_def nat_of_digits_def
  digit_val_def

lemmas round_eval = round_half_even_def Let_def floor_rat_numeral floor_rat_one_numeral

section \<open>Properties of the record\<close>

lemma py_strip_spaces: "py_strip ''   '' = []"
  by (simp add: py_strip_def py_isspace_def)

text \<open>
  C6 (callsign is never empty after construction). The guard of \<open>_validate_callsign\<close>
  tests emptiness before trimming, so a callsign of three blanks passes the guard and is
  trimmed to the empty string: the constructed record has an empty callsign.
\<close>

theorem validate_callsign_blank_is_empty:
  "callsign (new_aircraft (PStr ''   '') co v a kw) = []"
  by (simp add: new_aircraft_def validate_callsign_def py_strip_spaces)

text \<open>
  C7 (numeric validation). A velocity of -50 is clamped to 0.0, an altitude of -500 is
  kept, the standalone range check rejects -5000 while the constructor clamps it to
  -1000.0, and every velocity or altitude on which \<open>float\<close> raises degrades to 0.0.
\<close>

theorem numeric_validation:
  "velocity (new_aircraft cs co (PInt (- 50)) a kw) = Fin 0
   \<and> velocity (new_aircraft cs co (PFloat (Fin (- 50))) a kw) = Fin 0
   \<and> altitude (new_aircraft cs co v (PInt (- 500)) kw) = Fin (- 500)
   \<and> altitude (new_aircraft cs co v (PFloat (Fin (- 500))) kw) = Fin (- 500)
   \<and> check_altitude (PInt (- 5000)) = False
   \<and> check_altitude (PFloat (Fin (- 5000))) = False
   \<and> altitude (new_aircraft cs co v (PInt (- 5000)) kw) = Fin (- 1000)
   \<and> altitude (new_aircraft cs co v (PFloat (Fin (- 5000))) kw) = Fin (- 1000)
   \<and> (\<forall>x e. py_float x = Inl e \<longrightarrow>
          velocity (new_aircraft cs co x a kw) = Fin 0
          \<and> altitude (new_aircraft cs co v x kw) = Fin 0)"
  by (simp add: new_aircraft_def validate_velocity_def validate_altitude_def py_max_def
      check_altitude_def fl_le_def fl_eq_def)

lemma parse_float_abc: "parse_float ''abc'' = None"
  by (simp add: parse_float_eval)

theorem numeric_validation_witness:
  "py_float PNone = Inl TypeError
   \<and> py_float (PStr ''abc'') = Inl ValueError
   \<and> velocity (new_aircraft (PStr ''AFL101'') (PStr ''Russia'') PNone (PInt 11000) []) = Fin 0
   \<and> altitude (new_aircraft (PStr ''AFL101'') (PStr ''Russia'') (PInt 280) (PStr ''abc'') [])
       = Fin 0"
  using numeric_validation [of "PStr ''AFL101''" "PStr ''Russia''" "PInt 11000" "[]" "PInt 280"]
  by (simp add: parse_float_abc)

section \<open>Failures of the backing file\<close>

text \<open>
  C2 (no storage or filesystem exception leaves the store; malformed content is an empty
  store). A CSV file whose only line is cut after the third cell is counted as one record
  and \<open>get_all\<close> raises \<open>TypeError\<close> on it; a JSON file that holds the array \<open>[1]\<close> is
  counted as one record and \<open>get_all\<close> raises \<open>AttributeError\<close>; a JSON file that cannot be
  opened raises out of \<open>count\<close>.
\<close>

theorem malformed_file_raises:
  "csv_count \<lparr> cfile = CRows [[(''callsign'', PStr ''AFL101''),
        (''origin_country'', PStr ''Russia''), (''velocity'', PStr ''280.50''),
        (''altitude'', PNone), (''icao24'', PNone), (''longitude'', PNone),
        (''latitude'', PNone), (''on_ground'', PNone), (''vertical_rate'', PNone)]],
      cwritable = True \<rparr> = Inr 1
   \<and> csv_get_all \<lparr> cfile = CRows [[(''callsign'', PStr ''AFL101''),
        (''origin_country'', PStr ''Russia''), (''velocity'', PStr ''280.50''),
        (''altitude'', PNone), (''icao24'', PNone), (''longitude'', PNone),
        (''latitude'', PNone), (''on_ground'', PNone), (''vertical_rate'', PNone)]],
      cwritable = True \<rparr> = Inl TypeError
   \<and> json_count \<lparr> jfile = JArray [JOther (PInt 1)], jwritable = True \<rparr> = Inr 1
   \<and> json_get_all \<lparr> jfile = JArray [JOther (PInt 1)], jwritable = True \<rparr> = Inl AttributeError
   \<and> json_count \<lparr> jfile = JUnreadable, jwritable = True \<rparr> = Inl PermissionError"
  by (simp add: csv_count_def csv_get_all_def csv_get_aircraft_def csv_load_data_def
      any_values_def row_to_aircraft_def dict_item_def json_count_def json_get_all_def
      json_load_data_def cast_to_object_list_def parse_float_eval)

section \<open>Facts about the loops of the stores\<close>

lemma json_scan_objs:
  "list_all is_obj data \<Longrightarrow>
   \<exists>r. json_scan cs ad data = Inr r
       \<and> (case r of None \<Rightarrow> True | Some ys \<Rightarrow> list_all is_obj ys \<and> length ys = length data)"
proof (induction data)
  case Nil
  then show ?case by simp
next
  case (Cons x xs)
  then obtain d where x: "x = JObj d" by (cases x) auto
  from Cons obtain r where r: "json_scan cs ad xs = Inr r"
    "case r of None \<Rightarrow> True | Some ys \<Rightarrow> list_all is_obj ys \<and> length ys = length xs"
    by auto
  show ?case using r Cons.prems by (auto simp: x split: option.splits)
qed

lemma json_add_each_count:
  "json_add_each as data n = Inr (data', k) \<Longrightarrow> k = n + length as"
proof (induction as arbitrary: data n)
  case Nil
  then show ?case by simp
next
  case (Cons a as)
  from Cons.prems show ?case
    by (auto simp: on_ok_def split: sum.splits option.splits dest!: Cons.IH)
qed

lemma json_add_each_objs:
  "list_all is_obj data \<Longrightarrow>
   \<exists>data'. json_add_each as data n = Inr (data', n + length as) \<and> list_all is_obj data'"
proof (induction as arbitrary: data n)
  case Nil
  then show ?case by simp
next
  case (Cons a as)
  from json_scan_objs [OF Cons.prems, of "callsign a" "to_dict a"]
  obtain r where r: "json_scan (callsign a) (to_dict a) data = Inr r"
    "case r of None \<Rightarrow> True | Some ys \<Rightarrow> list_all is_obj ys \<and> length ys = length data"
    by auto
  show ?case
  proof (cases r)
    case None
    have "list_all is_obj (data @ [JObj (to_dict a)])" using Cons.prems by simp
    from Cons.IH [OF this, of "n + 1"] show ?thesis using r None by auto
  next
    case (Some ys)
    then have "list_all is_obj ys" using r by simp
    from Cons.IH [OF this, of "n + 1"] show ?thesis using r Some by auto
  qed
qed

lemma aircraft_to_row_keys: "aircraft_to_row a = Inr row \<Longrightarrow> keys_std row"
  by (cases "format_f 6 (longitude a)"; cases "format_f 6 (latitude a)";
      cases "format_f 2 (vertical_rate a)")
     (auto simp: aircraft_to_row_def keys_std_def fieldnames_def)

lemma keys_std_callsign: "keys_std row \<Longrightarrow> \<exists>v. dict_item row ''callsign'' = Inr v"
proof -
  assume "keys_std row"
  then have "''callsign'' \<in> set (map fst row)"
    by (simp add: keys_std_def fieldnames_def)
  then have "''callsign'' \<in> fst ` set row" by simp
  then have "map_of row ''callsign'' \<noteq> None" by (simp add: map_of_eq_None_iff)
  then show ?thesis by (auto simp: dict_item_def)
qed

lemma csv_index_ok:
  "list_all keys_std rows \<Longrightarrow> (\<forall>c j. m c = Some j \<longrightarrow> j < i) \<Longrightarrow>
   \<exists>m'. csv_index rows i m = Inr m' \<and> (\<forall>c j. m' c = Some j \<longrightarrow> j < i + length rows)"
proof (induction rows arbitrary: i m)
  case Nil
  then show ?case by simp
next
  case (Cons row rows)
  from Cons.prems(1) have "keys_std row" by simp
  from keys_std_callsign [OF this] obtain v where v: "dict_item row ''callsign'' = Inr v"
    by blast
  have "\<forall>c j. (m(v \<mapsto> i)) c = Some j \<longrightarrow> j < i + 1"
    using Cons.prems(2) by (auto simp: less_Suc_eq)
  moreover have "list_all keys_std rows" using Cons.prems by simp
  ultimately obtain m' where "csv_index rows (i + 1) (m(v \<mapsto> i)) = Inr m'"
    "\<forall>c j. m' c = Some j \<longrightarrow> j < i + 1 + length rows"
    using Cons.IH by blast
  then show ?case using v by simp
qed

lemma csv_add_each_count:
  "csv_add_each as data m n = Inr (data', k) \<Longrightarrow> k = n + length as"
proof (induction as arbitrary: data m n)
  case Nil
  then show ?case by simp
next
  case (Cons a as)
  from Cons.prems show ?case
    by (auto simp: on_ok_def split: sum.splits option.splits if_splits dest!: Cons.IH)
qed

lemma csv_add_each_ok:
  "list_all keys_std data \<Longrightarrow> (\<forall>c j. m c = Some j \<longrightarrow> j < length data) \<Longrightarrow>
   list_all (\<lambda>a. is_ok (aircraft_to_row a)) as \<Longrightarrow>
   \<exists>data'. csv_add_each as data m n = Inr (data', n + length as) \<and> list_all keys_std data'"
proof (induction as arbitrary: data m n)
  case Nil
  then show ?case by simp
next
  case (Cons a as)
  from Cons.prems(3) obtain new_row where nr: "aircraft_to_row a = Inr new_row"
    by (cases "aircraft_to_row a") auto
  then have kn: "keys_std new_row" by (rule aircraft_to_row_keys)
  have rest: "list_all (\<lambda>a. is_ok (aircraft_to_row a)) as" using Cons.prems(3) by simp
  show ?case
  proof (cases "m (PStr (callsign a))")
    case None
    have 1: "list_all keys_std (data @ [new_row])" using Cons.prems(1) kn by simp
    have 2: "\<forall>c j. (m(PStr (callsign a) \<mapsto> length data)) c = Some j
               \<longrightarrow> j < length (data @ [new_row])"
      using Cons.prems(2) by (auto simp: less_Suc_eq)
    from Cons.IH [OF 1 2 rest, of "n + 1"] obtain data' where
      "csv_add_each as (data @ [new_row]) (m(PStr (callsign a) \<mapsto> length data)) (n + 1)
         = Inr (data', n + 1 + length as)" "list_all keys_std data'"
      by blast
    then show ?thesis using nr None by simp
  next
    case (Some i)
    then have i: "i < length data" using Cons.prems(2) by blast
    have 1: "list_all keys_std (data[i := new_row])"
      using Cons.prems(1) kn by (auto simp: list_all_iff dest!: set_update_subset_insert [THEN subsetD])
    have 2: "\<forall>c j. m c = Some j \<longrightarrow> j < length (data[i := new_row])"
      using Cons.prems(2) by simp
    from Cons.IH [OF 1 2 rest, of "n + 1"] obtain data' where
      "csv_add_each as (data[i := new_row]) m (n + 1) = Inr (data', n + 1 + length as)"
      "list_all keys_std data'"
      by blast
    then show ?thesis using nr Some i by simp
  qed
qed

lemma csv_save_std:
  "list_all keys_std data \<Longrightarrow>
   \<exists>st'. csv_save_data st data = Inr (cwritable st, st') \<and> (\<not> cwritable st \<longrightarrow> st' = st)"
proof (cases data)
  case Nil
  then show ?thesis by (simp add: csv_save_data_def)
next
  case (Cons first rest)
  assume "list_all keys_std data"
  then have eq: "\<forall>row \<in> set data. map fst row = map fst first"
    using Cons by (auto simp: list_all_iff keys_std_def)
  have "\<not> list_ex (\<lambda>k. k \<notin> set (map fst first)) (map fst row)" if "row \<in> set data" for row
    using eq that by (simp add: list_ex_iff del: set_map)
  then have "\<not> list_ex (\<lambda>row. list_ex (\<lambda>k. k \<notin> set (map fst first)) (map fst row)) data"
    unfolding list_ex_iff [of _ data] by blast
  then show ?thesis using Cons by (simp add: csv_save_data_def)
qed

lemma py_eq_PStr [simp]: "py_eq x (PStr s) = (x = PStr s)"
  by (cases x) (auto simp: py_eq_def)

lemma filter_err_json_keep:
  "list_all is_obj data \<Longrightarrow>
   filter_err (json_keep c) data = Inr (filter (\<lambda>e. elem_callsign e \<noteq> PStr c) data)"
proof (induction data)
  case Nil
  then show ?case by simp
next
  case (Cons x xs)
  then obtain d where "x = JObj d" by (cases x) auto
  then show ?case using Cons by (simp add: row_callsign_def)
qed



lemma std_row_written: "std_row row \<Longrightarrow> csv_written fieldnames row = row"
proof -
  assume s: "std_row row"
  then have k: "map fst row = fieldnames" and t: "\<forall>(k, v) \<in> set row. is_PStr v"
    by (auto simp: std_row_def list_all_iff)
  have dist: "distinct (map fst row)" by (simp add: k fieldnames_def)
  have "(\<lambda>k. (k, PStr (cell_text (dict_get row k (PStr []))))) (fst x) = x" if "x \<in> set row" for x
  proof -
    obtain a v where x: "x = (a, v)" by (cases x)
    then have "map_of row a = Some v" using dist that by simp
    moreover have "is_PStr v" using t that x by auto
    then obtain str where "v = PStr str" by (cases v) auto
    ultimately show ?thesis using x by (simp add: dict_get_def cell_text_def)
  qed
  then have "map ((\<lambda>k. (k, PStr (cell_text (dict_get row k (PStr []))))) \<circ> fst) row = row"
    by (simp add: map_idI)
  then show ?thesis using k by (simp add: csv_written_def flip: k)
qed


section \<open>The rows of the sample records\<close>

lemmas fmt_eval = fmt_fixed_def round_eval
lemma replicate_numeral': "replicate (numeral k) x = x # replicate (pred_numeral k) x"
  by (simp add: numeral_eq_Suc)

lemmas digits_eval = dec_digits.simps digit_char_def replicate_numeral'

lemma afl101_row: "aircraft_to_row afl101 = Inr afl101_csv"
  by (simp add: aircraft_to_row_def afl101_def afl101_csv_def fmt_eval, simp add: digits_eval)

lemma ual202_row: "aircraft_to_row ual202 = Inr ual202_csv"
  by (simp add: aircraft_to_row_def ual202_def ual202_csv_def fmt_eval, simp add: digits_eval)



lemma sample_rows_any:
  "any_values afl101_csv" "any_values ual202_csv" "any_values afl101_new_csv"
  by (simp_all add: any_values_def afl101_csv_def ual202_csv_def afl101_new_csv_def)

lemma sample_callsigns:
  "row_callsign afl101_csv = PStr ''AFL101''" "row_callsign ual202_csv = PStr ''UAL202''"
  "row_callsign (to_dict afl101) = PStr ''AFL101''"
  "row_callsign (to_dict ual202) = PStr ''UAL202''"
  "row_callsign afl101_new_csv = PStr ''AFL101''"
  "callsign afl101 = ''AFL101''" "callsign ual202 = ''UAL202''"
  "callsign afl101_new = ''AFL101''"
  by (simp_all add: row_callsign_def dict_get_def afl101_csv_def ual202_csv_def to_dict_def
      afl101_def ual202_def afl101_new_def afl101_new_csv_def)

section \<open>The round trip of a record\<close>

text \<open>
  The text of \<open>f"{x:.df}"\<close> is a sign, the digits of the integer part, a point and \<open>d\<close>
  digits; \<open>float\<close> reads it back as the rounded value.
\<close>

lemma digit_not_special:
  assumes "is_digit c"
  shows "c \<noteq> CHR ''.''" "c \<noteq> CHR ''e''" "c \<noteq> CHR ''E''" "c \<noteq> CHR ''_''"
    "c \<noteq> CHR ''-''" "c \<noteq> CHR ''+''" "c \<noteq> CHR ''i''" "c \<noteq> CHR ''n''"
  using assms by (auto simp: is_digit_def)

lemma digit_not_space: "is_digit c \<Longrightarrow> \<not> py_isspace c"
  unfolding is_digit_def by (simp, elim disjE) (simp_all add: py_isspace_def)

lemma digit_lower: "is_digit c \<Longrightarrow> py_lower_char c = c"
  unfolding is_digit_def
  by (simp, elim disjE) (simp_all add: py_lower_char_def lower_table_def)

lemma digit_char_digit: "k < 10 \<Longrightarrow> is_digit (digit_char k)"
proof -
  assume "k < 10"
  then have "k \<in> {0, 1, 2, 3, 4, 5, 6, 7, 8, 9}" by auto
  then show ?thesis by (auto simp: is_digit_def digit_char_def)
qed

lemma digit_val_char: "k < 10 \<Longrightarrow> digit_val (digit_char k) = k"
proof -
  assume "k < 10"
  then have "k \<in> {0, 1, 2, 3, 4, 5, 6, 7, 8, 9}" by auto
  then show ?thesis by (auto simp: digit_val_def digit_char_def)
qed

lemma dec_digits_all: "list_all is_digit (dec_digits n)"
proof (induction n rule: dec_digits.induct)
  case (1 n)
  show ?case
  proof (cases "n < 10")
    case True
    then show ?thesis by (subst dec_digits.simps) (simp add: digit_char_digit)
  next
    case False
    then have "list_all is_digit (dec_digits (n div 10))" using 1 by simp
    moreover have "is_digit (digit_char (n mod 10))" by (simp add: digit_char_digit)
    ultimately show ?thesis using False by (subst dec_digits.simps) simp
  qed
qed

lemma dec_digits_ne: "dec_digits n \<noteq> []"
  by (subst dec_digits.simps) simp

lemma digits_no_underscore: "list_all is_digit s \<Longrightarrow> filter (\<lambda>c. c \<noteq> CHR ''_'') s = s"
  by (induction s) (auto dest: digit_not_special(4))

lemma nat_of_digits_snoc:
  "list_all is_digit s \<Longrightarrow> is_digit c \<Longrightarrow>
   nat_of_digits (s @ [c]) = 10 * nat_of_digits s + digit_val c"
  using digits_no_underscore [of "s @ [c]"] digits_no_underscore [of s]
  by (simp add: nat_of_digits_def)

lemma nat_of_dec_digits: "nat_of_digits (dec_digits n) = n"
proof (induction n rule: dec_digits.induct)
  case (1 n)
  show ?case
  proof (cases "n < 10")
    case True
    have "nat_of_digits [digit_char n] = digit_val (digit_char n)"
      using digit_char_digit [OF True] digit_not_special(4) by (simp add: nat_of_digits_def)
    then show ?thesis using True by (subst dec_digits.simps) (simp add: digit_val_char)
  next
    case False
    have "nat_of_digits (dec_digits (n div 10) @ [digit_char (n mod 10)])
            = 10 * nat_of_digits (dec_digits (n div 10)) + digit_val (digit_char (n mod 10))"
      by (rule nat_of_digits_snoc) (simp_all add: dec_digits_all digit_char_digit)
    also have "\<dots> = 10 * (n div 10) + n mod 10" using 1 False by (simp add: digit_val_char)
    finally show ?thesis using False by (subst dec_digits.simps) simp
  qed
qed

lemma dec_digits_length: "m < 10 ^ d \<Longrightarrow> 0 < d \<Longrightarrow> length (dec_digits m) \<le> d"
proof (induction m arbitrary: d rule: dec_digits.induct)
  case (1 n)
  show ?case
  proof (cases "n < 10")
    case True
    then show ?thesis using 1 by (subst dec_digits.simps) simp
  next
    case False
    obtain e where e: "d = Suc e" using 1(3) by (cases d) auto
    have "n div 10 < 10 ^ e" using 1(2) e by (simp add: less_mult_imp_div_less mult.commute)
    moreover have "0 < e" using False 1(2) e by (cases e) auto
    ultimately have "length (dec_digits (n div 10)) \<le> e" using 1(1) False by simp
    then show ?thesis using False e by (subst dec_digits.simps) simp
  qed
qed

lemma zero_digit: "is_digit (CHR ''0'')"
  by (simp add: is_digit_def)

lemma zeros_digits: "list_all is_digit (replicate k (CHR ''0''))"
  by (induction k) (simp_all add: zero_digit)

lemma zero_val: "digit_val (CHR ''0'') = 0"
  by (simp add: digit_val_def)

lemma nat_of_digits_zeros:
  assumes "list_all is_digit s"
  shows "nat_of_digits (replicate k (CHR ''0'') @ s) = nat_of_digits s"
proof -
  let ?f = "\<lambda>a c. 10 * a + digit_val c"
  have z: "foldl ?f 0 (replicate k (CHR ''0'')) = 0"
    by (induction k) (simp_all add: zero_val)
  have "list_all is_digit (replicate k (CHR ''0'') @ s)"
    using assms zeros_digits [of k] by simp
  then have "filter (\<lambda>c. c \<noteq> CHR ''_'') (replicate k (CHR ''0'') @ s)
               = replicate k (CHR ''0'') @ s"
    by (rule digits_no_underscore)
  moreover have "filter (\<lambda>c. c \<noteq> CHR ''_'') s = s"
    using assms by (rule digits_no_underscore)
  ultimately show ?thesis
    unfolding nat_of_digits_def by (simp only: foldl_append z)
qed

lemma digits_group:
  assumes ne: "s \<noteq> []" and a: "list_all is_digit s"
  shows "digit_group s"
proof -
  have all: "\<forall>c \<in> set s. is_digit c" using a by (simp only: list_all_iff)
  have h: "is_digit (hd s)" using ne all by simp
  have l: "is_digit (last s)" using ne all by simp
  have o: "list_all (\<lambda>c. is_digit c \<or> c = CHR ''_'') s"
    using all by (simp only: list_all_iff) blast
  have p: "\<not> list_ex (\<lambda>(a, b). a = CHR ''_'' \<and> b = CHR ''_'') (zip s (tl s))"
  proof
    assume "list_ex (\<lambda>(a, b). a = CHR ''_'' \<and> b = CHR ''_'') (zip s (tl s))"
    then obtain x y where xy: "(x, y) \<in> set (zip s (tl s))" and x: "x = CHR ''_''"
      unfolding list_ex_iff by blast
    from xy have "x \<in> set s" by (rule set_zip_leftD)
    then have "is_digit x" using all by blast
    then show False using x digit_not_special(4) by blast
  qed
  show ?thesis unfolding digit_group_def using ne h l o p by blast
qed

lemma py_strip_id:
  assumes "s \<noteq> []" "\<not> py_isspace (hd s)" "\<not> py_isspace (last s)"
  shows "py_strip s = s"
proof -
  have 1: "dropWhile py_isspace s = s" using assms(1,2) by (cases s) auto
  have "rev s \<noteq> []" "\<not> py_isspace (hd (rev s))" using assms(1,3) by (simp_all add: hd_rev)
  then have 2: "dropWhile py_isspace (rev s) = rev s" by (cases "rev s") auto
  show ?thesis by (simp add: py_strip_def 1 2)
qed

lemma round_half_even_nonneg: "0 \<le> x \<Longrightarrow> 0 \<le> round_half_even x"
proof -
  assume "0 \<le> x"
  then have "0 \<le> \<lfloor>x\<rfloor>" by simp
  then show ?thesis by (simp add: round_half_even_def Let_def)
qed

lemma parse_unsigned_fixed:
  assumes ip: "ip \<noteq> []" "list_all is_digit ip" and fp: "fp \<noteq> []" "list_all is_digit fp"
  shows "parse_unsigned (ip @ CHR ''.'' # fp)
           = Some (of_nat (nat_of_digits ip) + of_nat (nat_of_digits fp) / 10 ^ length fp)"
proof -
  let ?u = "ip @ CHR ''.'' # fp"
  let ?is_e = "\<lambda>c. c = CHR ''e'' \<or> c = CHR ''E''"
  have ne: "\<forall>c \<in> set ?u. \<not> ?is_e c"
    using ip(2) fp(2) by (auto simp: list_all_iff dest: digit_not_special(2,3))
  have m: "takeWhile (\<lambda>c. \<not> ?is_e c) ?u = ?u"
    using ne by (simp only: takeWhile_eq_all_conv)
  have r: "dropWhile (\<lambda>c. \<not> ?is_e c) ?u = []"
    using ne by (simp only: dropWhile_eq_Nil_conv)
  have nd: "\<forall>c \<in> set ip. c \<noteq> CHR ''.''"
    using ip(2) by (auto simp: list_all_iff dest: digit_not_special(1))
  have t: "takeWhile (\<lambda>c. c \<noteq> CHR ''.'') ?u = ip"
    using nd by (simp add: takeWhile_tail)
  have d: "dropWhile (\<lambda>c. c \<noteq> CHR ''.'') ?u = CHR ''.'' # fp"
    using nd by (simp add: dropWhile_append3)
  have g: "digit_group ip" "digit_group fp"
    using ip fp by (simp_all add: digits_group)
  have f: "filter (\<lambda>c. c \<noteq> CHR ''_'') fp = fp" using fp(2) by (rule digits_no_underscore)
  show ?thesis
    unfolding parse_unsigned_def Let_def m r t d
    using g ip(1) fp(1) f by simp
qed

lemma parse_float_fixed:
  assumes ip: "ip \<noteq> []" "list_all is_digit ip" and fp: "fp \<noteq> []" "list_all is_digit fp"
  shows "parse_float ((if neg then ''-'' else []) @ ip @ CHR ''.'' # fp)
           = Some (Fin ((if neg then - 1 else 1)
                * (of_nat (nat_of_digits ip) + of_nat (nat_of_digits fp) / 10 ^ length fp)))"
proof -
  let ?u = "ip @ CHR ''.'' # fp"
  let ?s = "(if neg then ''-'' else []) @ ?u"
  have hd_u: "is_digit (hd ?u)" using ip by (cases ip) auto
  have last_s: "is_digit (last ?s)" using fp by (auto simp: list_all_iff)
  have hd_s: "\<not> py_isspace (hd ?s)"
  proof (cases neg)
    case True
    then show ?thesis by (simp add: py_isspace_def)
  next
    case False
    then show ?thesis using digit_not_space [OF hd_u] by simp
  qed
  have strip: "py_strip ?s = ?s"
    by (rule py_strip_id) (use hd_s last_s in \<open>simp_all add: digit_not_space\<close>)
  obtain c cs where u: "?u = c # cs" and c: "is_digit c"
    using hd_u by (cases ?u) auto
  have sign: "split_sign ?s = (neg, ?u)"
  proof (cases neg)
    case True
    then show ?thesis by (simp add: split_sign_def)
  next
    case False
    then show ?thesis
      using u c digit_not_special(5,6) [OF c] by (simp add: split_sign_def)
  qed
  have low: "py_lower ?u = c # py_lower cs"
    using u c by (simp add: py_lower_def digit_lower)
  have l: "py_lower ?u \<noteq> ''inf''" "py_lower ?u \<noteq> ''infinity''" "py_lower ?u \<noteq> ''nan''"
    using digit_not_special(7,8) [OF c] by (simp_all add: low)
  show ?thesis
    unfolding parse_float_def strip sign
    using l parse_unsigned_fixed [OF ip fp] by (cases neg) simp_all
qed

lemma parse_fmt_fixed:
  assumes "0 < d"
  shows "parse_float (fmt_fixed d q)
           = Some (Fin ((if q < 0 then - 1 else 1)
                * of_int (round_half_even (\<bar>q\<bar> * 10 ^ d)) / 10 ^ d))"
proof -
  define n where "n = nat (round_half_even (\<bar>q\<bar> * 10 ^ d))"
  define fs where "fs = dec_digits (n mod 10 ^ d)"
  define fp where "fp = replicate (d - length fs) (CHR ''0'') @ fs"
  define ip where "ip = dec_digits (n div 10 ^ d)"
  have len_fs: "length fs \<le> d"
    unfolding fs_def using assms by (intro dec_digits_length) simp_all
  have len_fp: "length fp = d" using len_fs by (simp add: fp_def)
  have fs_d: "list_all is_digit fs" by (simp add: fs_def dec_digits_all)
  have fp_d: "list_all is_digit fp"
    using fs_d zeros_digits [of "d - length fs"] by (simp add: fp_def)
  have fp_ne: "fp \<noteq> []" using len_fp assms by auto
  have ip_d: "list_all is_digit ip" "ip \<noteq> []" by (simp_all add: ip_def dec_digits_all dec_digits_ne)
  have v_ip: "nat_of_digits ip = n div 10 ^ d" by (simp add: ip_def nat_of_dec_digits)
  have v_fp: "nat_of_digits fp = n mod 10 ^ d"
    unfolding fp_def using fs_d by (simp add: nat_of_digits_zeros fs_def nat_of_dec_digits)
  have fmt: "fmt_fixed d q = (if q < 0 then ''-'' else []) @ ip @ CHR ''.'' # fp"
    using assms by (simp add: fmt_fixed_def Let_def n_def ip_def fp_def fs_def)
  have "(of_nat (n div 10 ^ d) :: rat) + of_nat (n mod 10 ^ d) / 10 ^ d
          = (of_nat (n div 10 ^ d) * 10 ^ d + of_nat (n mod 10 ^ d)) / 10 ^ d"
    by (simp add: field_simps)
  also have "of_nat (n div 10 ^ d) * 10 ^ d + of_nat (n mod 10 ^ d)
               = (of_nat (n div 10 ^ d * 10 ^ d + n mod 10 ^ d) :: rat)"
    by simp
  also have "n div 10 ^ d * 10 ^ d + n mod 10 ^ d = n" by (rule div_mult_mod_eq)
  finally have val: "(of_nat (n div 10 ^ d) :: rat) + of_nat (n mod 10 ^ d) / 10 ^ d
                      = of_nat n / 10 ^ d" .
  have "0 \<le> round_half_even (\<bar>q\<bar> * 10 ^ d)" by (rule round_half_even_nonneg) simp
  then have n_int: "(of_nat n :: rat) = of_int (round_half_even (\<bar>q\<bar> * 10 ^ d))"
    by (simp add: n_def)
  show ?thesis
    unfolding fmt
    using parse_float_fixed [OF ip_d(2) ip_d(1) fp_ne fp_d, of "q < 0"]
    by (simp add: v_ip v_fp len_fp val n_int)
qed


lemma parse_fmt_float: "0 < d \<Longrightarrow> parse_float (fmt_float d x) = Some (quantize d x)"
proof (cases x)
  case (Fin q)
  assume "0 < d"
  then show ?thesis using Fin by (simp add: parse_fmt_fixed quantize_def)
next
  case PInf
  then show ?thesis by (simp add: quantize_def parse_float_eval)
next
  case NInf
  then show ?thesis by (simp add: quantize_def parse_float_eval)
next
  case NaN
  then show ?thesis by (simp add: quantize_def parse_float_eval)
qed

lemma py_max_le: "fl_le a b \<Longrightarrow> py_max a b = b"
  by (auto simp: py_max_def fl_le_def fl_eq_def)

lemma round_half_even_le:
  assumes "x \<le> of_int k"
  shows "round_half_even x \<le> k"
proof -
  have f: "\<lfloor>x\<rfloor> \<le> k" using assms by (simp add: floor_le_iff) 
  show ?thesis
  proof (cases "x - of_int \<lfloor>x\<rfloor> < 1 / 2")
    case True
    then show ?thesis using f by (simp add: round_half_even_def Let_def)
  next
    case False
    then have "of_int \<lfloor>x\<rfloor> < x" by simp
    then have "of_int \<lfloor>x\<rfloor> < (of_int k :: rat)" using assms by simp
    then have "\<lfloor>x\<rfloor> < k" by simp
    then have "\<lfloor>x\<rfloor> + 1 \<le> k" by simp
    then show ?thesis using f by (simp add: round_half_even_def Let_def)
  qed
qed

lemma fl_le_fin: "fl_le (Fin a) (Fin b) = (a \<le> b)"
  by (auto simp: fl_le_def fl_eq_def)

lemma quantize_velocity:
  assumes "fl_le (Fin 0) v"
  shows "fl_le (Fin 0) (quantize d v)"
proof (cases v)
  case (Fin q)
  then have q: "0 \<le> q" using assms by (simp only: fl_le_fin)
  have "0 \<le> round_half_even (\<bar>q\<bar> * 10 ^ d)" by (rule round_half_even_nonneg) simp
  then have "(0 :: rat) \<le> of_int (round_half_even (\<bar>q\<bar> * 10 ^ d)) / 10 ^ d" by simp
  moreover have "quantize d v = Fin (of_int (round_half_even (\<bar>q\<bar> * 10 ^ d)) / 10 ^ d)"
    using Fin q by (simp add: quantize_def)
  ultimately show ?thesis by (simp only: fl_le_fin)
qed (use assms in \<open>simp_all add: quantize_def\<close>)

lemma quantize_altitude:
  assumes "fl_le (Fin (- 1000)) v"
  shows "fl_le (Fin (- 1000)) (quantize d v)"
proof (cases v)
  case (Fin q)
  then have q: "- 1000 \<le> q" using assms by (simp only: fl_le_fin)
  have nn: "0 \<le> round_half_even (\<bar>q\<bar> * 10 ^ d)" by (rule round_half_even_nonneg) simp
  show ?thesis
  proof (cases "q < 0")
    case False
    have "(0 :: rat) \<le> of_int (round_half_even (\<bar>q\<bar> * 10 ^ d)) / 10 ^ d" using nn by simp
    then have "(- 1000 :: rat) \<le> of_int (round_half_even (\<bar>q\<bar> * 10 ^ d)) / 10 ^ d" by simp
    moreover have "quantize d v = Fin (of_int (round_half_even (\<bar>q\<bar> * 10 ^ d)) / 10 ^ d)"
      using Fin False by (simp add: quantize_def)
    ultimately show ?thesis by (simp only: fl_le_fin)
  next
    case True
    then have "\<bar>q\<bar> \<le> 1000" using q by simp
    then have "\<bar>q\<bar> * 10 ^ d \<le> 1000 * 10 ^ d" by (simp add: mult_right_mono)
    then have "\<bar>q\<bar> * 10 ^ d \<le> of_int (1000 * 10 ^ d)" by simp
    then have "round_half_even (\<bar>q\<bar> * 10 ^ d) \<le> 1000 * 10 ^ d" by (rule round_half_even_le)
    then have "(of_int (round_half_even (\<bar>q\<bar> * 10 ^ d)) :: rat) \<le> of_int (1000 * 10 ^ d)"
      by (simp only: of_int_le_iff)
    then have "(of_int (round_half_even (\<bar>q\<bar> * 10 ^ d)) :: rat) \<le> 1000 * 10 ^ d" by simp
    then have "(of_int (round_half_even (\<bar>q\<bar> * 10 ^ d)) :: rat) / 10 ^ d \<le> 1000"
      by (simp add: divide_le_eq)
    then have "(- 1000 :: rat) \<le> - (of_int (round_half_even (\<bar>q\<bar> * 10 ^ d)) / 10 ^ d)" by simp
    moreover have "quantize d v = Fin (- (of_int (round_half_even (\<bar>q\<bar> * 10 ^ d)) / 10 ^ d))"
      using Fin True by (simp add: quantize_def)
    ultimately show ?thesis by (simp only: fl_le_fin)
  qed
qed (use assms in \<open>simp_all add: quantize_def\<close>)

lemma validate_text_id: "s \<noteq> [] \<Longrightarrow> py_strip s = s \<Longrightarrow> validate_callsign (PStr s) = s"
  "s \<noteq> [] \<Longrightarrow> py_strip s = s \<Longrightarrow> validate_country (PStr s) = s"
  by (simp_all add: validate_callsign_def validate_country_def)

lemma validate_numbers_id:
  "fl_le (Fin 0) v \<Longrightarrow> validate_velocity (PFloat v) = v"
  "fl_le (Fin (- 1000)) a \<Longrightarrow> validate_altitude (PFloat a) = a"
  by (simp_all add: validate_velocity_def validate_altitude_def py_max_le)

lemma json_round_trip: "valid_aircraft r \<Longrightarrow> from_dict (to_dict r) = r"
  by (cases r)
     (simp add: valid_aircraft_def from_dict_def to_dict_def dict_get_def new_aircraft_def
        validate_text_id validate_numbers_id)

lemma lower_bool: "(py_lower (py_str (PBool b)) = ''true'') = b"
  by (cases b) (simp_all add: py_lower_def py_lower_char_def lower_table_def)

lemma float_of_fmt: "0 < d \<Longrightarrow> py_float (PStr (fmt_float d x)) = Inr (quantize d x)"
  by (simp add: parse_fmt_float)

lemma csv_round_trip:
  assumes v: "valid_aircraft r" and t: "typed_aircraft r"
  shows "on_ok (aircraft_to_row r) row_to_aircraft = Inr (csv_rounded r)"
proof -
  obtain ic lon lat og vr where f:
    "icao24 r = PStr ic" "longitude r = PFloat lon" "latitude r = PFloat lat"
    "on_ground r = PBool og" "vertical_rate r = PFloat vr"
    using t unfolding typed_aircraft_def
    by (cases "icao24 r"; cases "longitude r"; cases "latitude r"; cases "on_ground r";
        cases "vertical_rate r") simp_all
  let ?row = "[(''callsign'', PStr (callsign r)),
            (''origin_country'', PStr (origin_country r)),
            (''velocity'', PStr (fmt_float 2 (velocity r))),
            (''altitude'', PStr (fmt_float 2 (altitude r))),
            (''icao24'', PStr ic),
            (''longitude'', PStr (fmt_float 6 lon)),
            (''latitude'', PStr (fmt_float 6 lat)),
            (''on_ground'', PStr (py_str (PBool og))),
            (''vertical_rate'', PStr (fmt_float 2 vr))]"
  have row: "aircraft_to_row r = Inr ?row" by (simp add: aircraft_to_row_def f)
  have q: "fl_le (Fin 0) (quantize 2 (velocity r))"
    "fl_le (Fin (- 1000)) (quantize 2 (altitude r))"
    using v by (simp_all add: valid_aircraft_def quantize_velocity quantize_altitude)
  have cs: "validate_callsign (PStr (callsign r)) = callsign r"
    "validate_country (PStr (origin_country r)) = origin_country r"
    using v by (simp_all add: valid_aircraft_def validate_text_id)
  have conv: "row_to_aircraft ?row =
      Inr \<lparr> callsign = callsign r, origin_country = origin_country r,
            velocity = quantize 2 (velocity r), altitude = quantize 2 (altitude r),
            icao24 = PStr ic, longitude = PFloat (quantize 6 lon),
            latitude = PFloat (quantize 6 lat), on_ground = PBool og,
            vertical_rate = PFloat (quantize 2 vr) \<rparr>"
    unfolding row_to_aircraft_def
    by (simp add: dict_item_def float_of_fmt lower_bool new_aircraft_def dict_get_def cs
        validate_numbers_id q del: py_str.simps py_float.simps)
  have "csv_rounded r =
      \<lparr> callsign = callsign r, origin_country = origin_country r,
        velocity = quantize 2 (velocity r), altitude = quantize 2 (altitude r),
        icao24 = PStr ic, longitude = PFloat (quantize 6 lon),
        latitude = PFloat (quantize 6 lat), on_ground = PBool og,
        vertical_rate = PFloat (quantize 2 vr) \<rparr>"
    using f by (cases r) (simp add: csv_rounded_def)
  then show ?thesis using row conv by simp
qed


lemma round_half_even_int: "round_half_even (of_int k) = k"
  by (simp add: round_half_even_def Let_def)

lemma quantize_id:
  assumes "has_decimals d x"
  shows "quantize d x = x"
proof (cases x)
  case (Fin q)
  define k where "k = \<lfloor>q * 10 ^ d\<rfloor>"
  have "of_int \<lfloor>q * 10 ^ d\<rfloor> = q * 10 ^ d"
    using assms unfolding Fin has_decimals_def by (simp only: pyfloat.case)
  then have k: "q * 10 ^ d = of_int k" by (simp only: k_def)
  have "\<bar>q\<bar> * 10 ^ d = \<bar>q * 10 ^ d\<bar>" by (simp add: abs_mult)
  also have "\<dots> = of_int \<bar>k\<bar>" by (simp add: k)
  finally have "round_half_even (\<bar>q\<bar> * 10 ^ d) = \<bar>k\<bar>" by (simp only: round_half_even_int)
  moreover have "(q < 0) = (k < 0)"
  proof -
    have "(q < 0) = (q * 10 ^ d < 0)" by (simp add: mult_less_0_iff)
    also have "\<dots> = (k < 0)" by (simp add: k)
    finally show ?thesis .
  qed
  moreover have "q = of_int k / 10 ^ d" using k by (simp add: field_simps)
  ultimately show ?thesis using Fin by (simp add: quantize_def)
qed (simp_all add: quantize_def)

lemma quantize_val_id: "val_decimals d v \<Longrightarrow> quantize_val d v = v"
  by (cases v) (simp_all add: quantize_id)

lemma csv_rounded_id: "fits_csv r \<Longrightarrow> csv_rounded r = r"
  by (simp add: fits_csv_def csv_rounded_def quantize_id quantize_val_id)

lemma afl101_slow_valid: "valid_aircraft afl101_slow" "typed_aircraft afl101_slow"
  by (simp_all add: valid_aircraft_def typed_aircraft_def afl101_slow_def afl101_def
      py_strip_def py_isspace_def fl_le_fin)

lemma afl101_valid: "valid_aircraft afl101" "typed_aircraft afl101" "fits_csv afl101"
  by (simp_all add: valid_aircraft_def typed_aircraft_def afl101_def fits_csv_def
      has_decimals_def py_strip_def py_isspace_def fl_le_fin)

text \<open>
  C1 as stated (the round trip through the serialized mapping yields a record with
  exactly equal fields, in both backends) fails in the CSV backend: \<open>_aircraft_to_row\<close>
  writes the velocity with two decimals. The velocity 0.125 is written as \<open>0.12\<close>, the tie
  going to the even digit, and \<open>_row_to_aircraft\<close> reads 0.12 back.
\<close>

theorem csv_row_rounds_velocity:
  "valid_aircraft afl101_slow \<and> typed_aircraft afl101_slow
   \<and> velocity afl101_slow = Fin (1 / 8)
   \<and> fmt_float 2 (velocity afl101_slow) = ''0.12''
   \<and> parse_float ''0.12'' = Some (Fin (3 / 25))
   \<and> on_ok (aircraft_to_row afl101_slow) row_to_aircraft
       = Inr (afl101_slow\<lparr>velocity := Fin (3 / 25)\<rparr>)"
proof -
  have 1: "velocity afl101_slow = Fin (1 / 8)" by (simp add: afl101_slow_def)
  have 2: "fmt_float 2 (velocity afl101_slow) = ''0.12''"
    by (simp add: afl101_slow_def fmt_eval, simp add: digits_eval)
  have 3: "parse_float ''0.12'' = Some (Fin (3 / 25))"
    by (simp add: parse_float_eval)
  have "csv_rounded afl101_slow = afl101_slow\<lparr>velocity := Fin (3 / 25)\<rparr>"
    by (simp add: csv_rounded_def quantize_def afl101_slow_def afl101_def round_eval)
  then have 4: "on_ok (aircraft_to_row afl101_slow) row_to_aircraft
       = Inr (afl101_slow\<lparr>velocity := Fin (3 / 25)\<rparr>)"
    using csv_round_trip [OF afl101_slow_valid] by simp
  show ?thesis using afl101_slow_valid 1 2 3 4 by simp
qed

text \<open>
  C1, amended. For every valid record \<open>r\<close>: \<open>from_dict(to_dict(r))\<close> has the nine fields of
  \<open>r\<close>. When the five other fields have the types of the data model,
  \<open>_row_to_aircraft(_aircraft_to_row(r))\<close> returns \<open>r\<close> with the velocity, the altitude and the
  vertical rate rounded to two decimals and the longitude and the latitude rounded to six,
  ties to even, and every other field equal; so it returns \<open>r\<close> itself when these five
  numbers have no more decimals than their cells.
\<close>

theorem round_trip_of_record:
  "(valid_aircraft r \<longrightarrow> from_dict (to_dict r) = r)
   \<and> (valid_aircraft r \<and> typed_aircraft r \<longrightarrow>
        on_ok (aircraft_to_row r) row_to_aircraft = Inr (csv_rounded r))
   \<and> (valid_aircraft r \<and> typed_aircraft r \<and> fits_csv r \<longrightarrow>
        on_ok (aircraft_to_row r) row_to_aircraft = Inr r)"
proof (intro conjI impI)
  assume "valid_aircraft r"
  then show "from_dict (to_dict r) = r" by (rule json_round_trip)
next
  assume "valid_aircraft r \<and> typed_aircraft r"
  then show "on_ok (aircraft_to_row r) row_to_aircraft = Inr (csv_rounded r)"
    using csv_round_trip by blast
next
  assume h: "valid_aircraft r \<and> typed_aircraft r \<and> fits_csv r"
  then have "on_ok (aircraft_to_row r) row_to_aircraft = Inr (csv_rounded r)"
    using csv_round_trip by blast
  then show "on_ok (aircraft_to_row r) row_to_aircraft = Inr r"
    using h by (simp add: csv_rounded_id)
qed

theorem round_trip_of_record_witness:
  "valid_aircraft afl101 \<and> typed_aircraft afl101 \<and> fits_csv afl101
   \<and> from_dict (to_dict afl101) = afl101
   \<and> on_ok (aircraft_to_row afl101) row_to_aircraft = Inr (csv_rounded afl101)
   \<and> on_ok (aircraft_to_row afl101) row_to_aircraft = Inr afl101"
proof -
  note T = round_trip_of_record [of afl101]
  have h2: "valid_aircraft afl101 \<and> typed_aircraft afl101" using afl101_valid by simp
  have h3: "valid_aircraft afl101 \<and> typed_aircraft afl101 \<and> fits_csv afl101"
    using afl101_valid by simp
  show ?thesis
    using afl101_valid T [THEN conjunct1, rule_format, OF afl101_valid(1)]
      T [THEN conjunct2, THEN conjunct1, rule_format, OF h2]
      T [THEN conjunct2, THEN conjunct2, rule_format, OF h3]
    by simp
qed

section \<open>The rows of two odd records\<close>

lemma afl101_nopos_row: "aircraft_to_row afl101_nopos = Inl TypeError"
  by (simp add: aircraft_to_row_def afl101_nopos_def afl101_def)


section \<open>The count returned by add_multiple_aircraft\<close>

text \<open>
  Whenever \<open>add_multiple_aircraft\<close> of either backend returns, it returns the length of
  the input list. On a store that loads as objects (JSON) or as rows under the standard
  header, with records whose rows can be formatted (CSV), it does return, also when the
  file cannot be written: then the store is unchanged and the count is still the length.
  The CSV backend returns 0 for the empty list on any file, without reading it.
\<close>

theorem add_multiple_returns_length:
  "(\<forall>n st'. json_add_multiple_aircraft as st = Inr (n, st') \<longrightarrow> n = length as)
   \<and> (\<forall>data. json_load_data st = Inr data \<and> list_all is_obj data \<longrightarrow>
         (\<exists>st'. json_add_multiple_aircraft as st = Inr (length as, st')
                \<and> (\<not> jwritable st \<longrightarrow> st' = st)))
   \<and> (\<forall>n ct'. csv_add_multiple_aircraft as ct = Inr (n, ct') \<longrightarrow> n = length as)
   \<and> (\<forall>rows. csv_load_data ct = Inr rows \<and> list_all keys_std rows
               \<and> list_all (\<lambda>a. is_ok (aircraft_to_row a)) as \<longrightarrow>
         (\<exists>ct'. csv_add_multiple_aircraft as ct = Inr (length as, ct')
                \<and> (\<not> cwritable ct \<longrightarrow> ct' = ct)))
   \<and> csv_add_multiple_aircraft [] ct = Inr (0, ct)"
proof (intro conjI allI impI)
  fix n st'
  assume "json_add_multiple_aircraft as st = Inr (n, st')"
  then show "n = length as"
    by (auto simp: json_add_multiple_aircraft_def on_ok_def split: sum.splits
        dest: json_add_each_count)
next
  fix data
  assume "json_load_data st = Inr data \<and> list_all is_obj data"
  then have l: "json_load_data st = Inr data" and o: "list_all is_obj data" by auto
  from json_add_each_objs [OF o, of as 0] obtain data' where
    "json_add_each as data 0 = Inr (data', length as)" by auto
  then show "\<exists>st'. json_add_multiple_aircraft as st = Inr (length as, st')
                \<and> (\<not> jwritable st \<longrightarrow> st' = st)"
    using l by (simp add: json_add_multiple_aircraft_def json_save_data_def)
next
  fix n ct'
  assume "csv_add_multiple_aircraft as ct = Inr (n, ct')"
  then show "n = length as"
    by (auto simp: csv_add_multiple_aircraft_def on_ok_def split: sum.splits if_splits
        dest: csv_add_each_count)
next
  fix rows
  assume "csv_load_data ct = Inr rows \<and> list_all keys_std rows
          \<and> list_all (\<lambda>a. is_ok (aircraft_to_row a)) as"
  then have l: "csv_load_data ct = Inr rows" and k: "list_all keys_std rows"
    and f: "list_all (\<lambda>a. is_ok (aircraft_to_row a)) as" by auto
  from csv_index_ok [OF k, of Map.empty 0] obtain m where
    m: "csv_index rows 0 Map.empty = Inr m" "\<forall>c j. m c = Some j \<longrightarrow> j < length rows"
    by auto
  from csv_add_each_ok [OF k m(2) f, of 0] obtain data' where
    d: "csv_add_each as rows m 0 = Inr (data', length as)" "list_all keys_std data'"
    by auto
  from csv_save_std [OF d(2), of ct] obtain ct' where
    s: "csv_save_data ct data' = Inr (cwritable ct, ct')" "\<not> cwritable ct \<longrightarrow> ct' = ct"
    by auto
  show "\<exists>ct'. csv_add_multiple_aircraft as ct = Inr (length as, ct')
                \<and> (\<not> cwritable ct \<longrightarrow> ct' = ct)"
    using l m(1) d(1) s by (auto simp: csv_add_multiple_aircraft_def)
next
  show "csv_add_multiple_aircraft [] ct = Inr (0, ct)"
    by (simp add: csv_add_multiple_aircraft_def)
qed

theorem add_multiple_returns_length_witness:
  "json_load_data \<lparr>jfile = JArray [JObj (to_dict afl101)], jwritable = False\<rparr>
     = Inr [JObj (to_dict afl101)]
   \<and> list_all is_obj [JObj (to_dict afl101)]
   \<and> json_add_multiple_aircraft [afl101, ual202]
        \<lparr>jfile = JArray [JObj (to_dict afl101)], jwritable = False\<rparr>
      = Inr (2, \<lparr>jfile = JArray [JObj (to_dict afl101)], jwritable = False\<rparr>)
   \<and> csv_load_data \<lparr>cfile = CMissing, cwritable = False\<rparr> = Inr []
   \<and> list_all (\<lambda>a. is_ok (aircraft_to_row a)) [afl101, ual202]
   \<and> csv_add_multiple_aircraft [afl101, ual202] \<lparr>cfile = CMissing, cwritable = False\<rparr>
      = Inr (2, \<lparr>cfile = CMissing, cwritable = False\<rparr>)"
proof -
  let ?st = "\<lparr>jfile = JArray [JObj (to_dict afl101)], jwritable = False\<rparr>"
  let ?ct = "\<lparr>cfile = CMissing, cwritable = False\<rparr>"
  note T = add_multiple_returns_length [of "[afl101, ual202]" ?st ?ct]
  have jl: "json_load_data ?st = Inr [JObj (to_dict afl101)]"
    by (simp add: json_load_data_def)
  have jo: "list_all is_obj [JObj (to_dict afl101)]" by simp
  have cl: "csv_load_data ?ct = Inr []" by (simp add: csv_load_data_def)
  have cf: "list_all (\<lambda>a. is_ok (aircraft_to_row a)) [afl101, ual202]"
    by (simp add: afl101_row ual202_row)
  from T [THEN conjunct2, THEN conjunct1, rule_format, of "[JObj (to_dict afl101)]"] jl jo
  have j: "json_add_multiple_aircraft [afl101, ual202] ?st = Inr (2, ?st)" by auto
  from T [THEN conjunct2, THEN conjunct2, THEN conjunct2, THEN conjunct1, rule_format,
          of "[]"] cl cf
  have c: "csv_add_multiple_aircraft [afl101, ual202] ?ct = Inr (2, ?ct)" by auto
  show ?thesis using jl jo cl cf j c by blast
qed

text \<open>
  C10 (\<open>add_multiple_aircraft\<close> returns the length of every input list). A record without
  a position, as \<open>cast_to_object_list\<close> builds it from a state vector that
  \<open>process_aircraft_data\<close> passed on, has the longitude \<open>None\<close>. In the CSV backend
  \<open>_aircraft_to_row\<close> formats it with \<open>:.6f\<close>: the call raises \<open>TypeError\<close> and returns no
  count, on the empty file and after a record that could be formatted alike. The JSON
  backend stores the same record and returns 1.
\<close>

theorem add_multiple_raises_without_position:
  "csv_add_multiple_aircraft [afl101_nopos] \<lparr>cfile = CRows [], cwritable = True\<rparr>
     = Inl TypeError
   \<and> csv_add_multiple_aircraft [ual202, afl101_nopos]
        \<lparr>cfile = CRows [afl101_csv], cwritable = True\<rparr>
     = Inl TypeError
   \<and> json_add_multiple_aircraft [afl101_nopos] \<lparr>jfile = JArray [], jwritable = True\<rparr>
     = Inr (1, \<lparr>jfile = JArray [JObj (to_dict afl101_nopos)], jwritable = True\<rparr>)"
proof -
  have 1: "csv_add_multiple_aircraft [afl101_nopos] \<lparr>cfile = CRows [], cwritable = True\<rparr>
             = Inl TypeError"
    by (simp add: csv_add_multiple_aircraft_def csv_load_data_def afl101_nopos_row)
  have 2: "csv_add_multiple_aircraft [ual202, afl101_nopos]
             \<lparr>cfile = CRows [afl101_csv], cwritable = True\<rparr> = Inl TypeError"
    by (simp add: csv_add_multiple_aircraft_def csv_load_data_def sample_rows_any
        afl101_nopos_row ual202_row sample_callsigns dict_item_def afl101_csv_def)
  have 3: "json_add_multiple_aircraft [afl101_nopos] \<lparr>jfile = JArray [], jwritable = True\<rparr>
     = Inr (1, \<lparr>jfile = JArray [JObj (to_dict afl101_nopos)], jwritable = True\<rparr>)"
    by (simp add: json_add_multiple_aircraft_def json_load_data_def json_save_data_def)
  show ?thesis using 1 2 3 by simp
qed

section \<open>Deleting by callsign\<close>








section \<open>Facts about the upsert\<close>

lemma map_of_dict_update: "map_of (dict_update d e) = map_of d ++ map_of (rev e)"
proof -
  have "map_of (fold (\<lambda>(k, v). AList.update k v) e d) = map_of d ++ map_of (rev e)" for d
  proof (induction e arbitrary: d)
    case Nil
    then show ?case by simp
  next
    case (Cons x xs)
    obtain k v where x: "x = (k, v)" by (cases x)
    have "map_of (fold (\<lambda>(k, v). AList.update k v) xs (AList.update k v d))
            = map_of (AList.update k v d) ++ map_of (rev xs)"
      by (rule Cons)
    also have "map_of (AList.update k v d) = map_of d ++ [k \<mapsto> v]"
      by (simp add: AList.update_conv')
    finally have "map_of (fold (\<lambda>(k, v). AList.update k v) xs (AList.update k v d))
            = map_of d ++ ([k \<mapsto> v] ++ map_of (rev xs))"
      by (simp only: map_add_assoc)
    then show ?case by (simp add: x)
  qed
  then show ?thesis by (simp add: dict_update_def)
qed


lemma dict_update_lookup:
  "distinct (map fst e) \<Longrightarrow> (k, v) \<in> set e \<Longrightarrow> map_of (dict_update d e) k = Some v"
  by (simp add: map_of_dict_update map_add_Some_iff distinct_rev rev_map [symmetric])




lemma to_dict_keys: "map fst (to_dict r) = fieldnames"
  by (simp add: to_dict_def fieldnames_def)

lemma fieldnames_distinct: "distinct fieldnames"
  by (simp add: fieldnames_def)

lemma to_dict_callsign: "row_callsign (to_dict r) = PStr (callsign r)"
  by (simp add: row_callsign_def dict_get_def to_dict_def)

lemma dict_update_callsign:
  "row_callsign (dict_update d (to_dict r)) = PStr (callsign r)"
proof -
  have "(''callsign'', PStr (callsign r)) \<in> set (to_dict r)" by (simp add: to_dict_def)
  then have "map_of (dict_update d (to_dict r)) ''callsign'' = Some (PStr (callsign r))"
    using dict_update_lookup [of "to_dict r"] by (simp add: to_dict_keys fieldnames_distinct)
  then show ?thesis by (simp add: row_callsign_def dict_get_def)
qed

text \<open>The scan on a list split at its first match.\<close>

lemma json_scan_found:
  "list_all is_obj pre \<Longrightarrow> PStr c \<notin> set (map elem_callsign pre) \<Longrightarrow>
   row_callsign d = PStr c \<Longrightarrow>
   json_scan c ad (pre @ JObj d # post) = Inr (Some (pre @ JObj (dict_update d ad) # post))"
proof (induction pre)
  case Nil
  then show ?case by (simp add: row_callsign_def)
next
  case (Cons x xs)
  then obtain d' where "x = JObj d'" by (cases x) auto
  then show ?case using Cons by (auto simp: row_callsign_def)
qed

lemma json_scan_absent:
  "list_all is_obj data \<Longrightarrow> PStr c \<notin> set (map elem_callsign data) \<Longrightarrow>
   json_scan c ad data = Inr None"
proof (induction data)
  case Nil
  then show ?case by simp
next
  case (Cons x xs)
  then obtain d' where "x = JObj d'" by (cases x) auto
  then show ?case using Cons by (auto simp: row_callsign_def)
qed

text \<open>Every list of objects either lacks the callsign or splits at its first match.\<close>

lemma first_match_split:
  "k \<in> set (map f xs) \<Longrightarrow> \<exists>pre x post. xs = pre @ x # post \<and> k \<notin> set (map f pre) \<and> f x = k"
proof (induction xs)
  case Nil
  then show ?case by simp
next
  case (Cons y ys)
  show ?case
  proof (cases "f y = k")
    case True
    then have "y # ys = [] @ y # ys \<and> k \<notin> set (map f []) \<and> f y = k" by simp
    then show ?thesis by blast
  next
    case False
    then have "k \<in> set (map f ys)" using Cons.prems by auto
    from Cons.IH [OF this] obtain pre x post where
      "ys = pre @ x # post" "k \<notin> set (map f pre)" "f x = k" by blast
    then have "y # ys = (y # pre) @ x # post \<and> k \<notin> set (map f (y # pre)) \<and> f x = k"
      using False by auto
    then show ?thesis by blast
  qed
qed

lemma csv_replace_first_found:
  "PStr c \<notin> set (map row_callsign pre) \<Longrightarrow> row_callsign row = PStr c \<Longrightarrow>
   csv_replace_first c new (pre @ row # post) = Some (pre @ new # post)"
  by (induction pre) (auto simp: row_callsign_def)

lemma csv_replace_first_absent:
  "PStr c \<notin> set (map row_callsign rows) \<Longrightarrow> csv_replace_first c new rows = None"
  by (induction rows) (auto simp: row_callsign_def)

lemma csv_replace_first_map:
  "\<forall>x \<in> set rows. f x = x \<Longrightarrow>
   map_option (map f) (csv_replace_first c new rows) = csv_replace_first c (f new) rows"
  by (induction rows) (auto split: option.splits simp: map_idI)

lemma csv_replace_first_keys:
  "csv_replace_first c new rows = Some d \<Longrightarrow> list_all keys_std rows \<Longrightarrow> keys_std new \<Longrightarrow>
   list_all keys_std d \<and> d \<noteq> []"
  by (induction rows arbitrary: d) (auto split: option.splits if_splits)

lemma written_std: "std_row (csv_written fieldnames row)"
  by (simp add: std_row_def csv_written_def list_all_iff comp_def)

lemma written_callsign:
  "dict_get row ''callsign'' (PStr []) = PStr c \<Longrightarrow>
   row_callsign (csv_written fieldnames row) = PStr c"
  by (simp add: row_callsign_def csv_written_def fieldnames_def dict_get_def cell_text_def)

lemma dec_digits_nonempty: "dec_digits n \<noteq> []"
  by (subst dec_digits.simps) simp

lemma fmt_float_nonempty: "fmt_float d x \<noteq> []"
  by (cases x) (simp_all add: fmt_fixed_def Let_def dec_digits_nonempty)

lemma new_row_callsign:
  "aircraft_to_row r = Inr new_row \<Longrightarrow> dict_get new_row ''callsign'' dflt = PStr (callsign r)"
  by (cases "format_f 6 (longitude r)"; cases "format_f 6 (latitude r)";
      cases "format_f 2 (vertical_rate r)")
     (auto simp: aircraft_to_row_def dict_get_def)

lemma new_row_written_any:
  "aircraft_to_row r = Inr new_row \<Longrightarrow> any_values (csv_written fieldnames new_row)"
proof -
  assume a: "aircraft_to_row r = Inr new_row"
  then have "dict_get new_row ''velocity'' (PStr []) = PStr (fmt_float 2 (velocity r))"
    by (cases "format_f 6 (longitude r)"; cases "format_f 6 (latitude r)";
        cases "format_f 2 (vertical_rate r)")
       (auto simp: aircraft_to_row_def dict_get_def)
  then have "(''velocity'', PStr (fmt_float 2 (velocity r)))
               \<in> set (csv_written fieldnames new_row)"
    by (simp add: csv_written_def fieldnames_def cell_text_def)
  then show ?thesis
    unfolding any_values_def list_ex_iff using fmt_float_nonempty by force
qed


lemma csv_save_keys_std:
  "list_all keys_std data \<Longrightarrow> data \<noteq> [] \<Longrightarrow>
   csv_save_data st data =
     Inr (cwritable st,
          if cwritable st then st\<lparr>cfile := CRows (map (csv_written fieldnames) data)\<rparr> else st)"
proof (cases data)
  case Nil
  assume "data \<noteq> []"
  then show ?thesis using Nil by simp
next
  case (Cons first rest)
  assume ks: "list_all keys_std data"
  from csv_save_std [OF ks, of st] obtain st' where
    sv: "csv_save_data st data = Inr (cwritable st, st')" "\<not> cwritable st \<longrightarrow> st' = st"
    by auto
  have "map fst first = fieldnames" using ks Cons by (simp add: keys_std_def)
  then show ?thesis using sv Cons
    by (auto simp: csv_save_data_def split: if_splits)
qed

lemma csv_add_std:
  assumes l: "csv_load_data ct = Inr rows" and s: "list_all std_row rows"
    and a: "aircraft_to_row r = Inr new_row"
  shows "csv_add_aircraft r ct =
     Inr (cwritable ct,
          if cwritable ct
          then ct\<lparr>cfile := CRows (csv_put (callsign r) (csv_written fieldnames new_row) rows)\<rparr>
          else ct)"
proof -
  let ?f = "csv_written fieldnames"
  have ks: "list_all keys_std rows" using s by (auto simp: list_all_iff std_row_def keys_std_def)
  have kn: "keys_std new_row" using a by (rule aircraft_to_row_keys)
  have id: "\<forall>x \<in> set rows. ?f x = x" using s by (auto simp: list_all_iff std_row_written)
  show ?thesis
  proof (cases "csv_replace_first (callsign r) new_row rows")
    case None
    then have n2: "csv_replace_first (callsign r) (?f new_row) rows = None"
      using csv_replace_first_map [OF id, of "callsign r" new_row] by simp
    have "list_all keys_std (rows @ [new_row])" using ks kn by simp
    from csv_save_keys_std [OF this, of ct]
    have "csv_save_data ct (rows @ [new_row]) =
       Inr (cwritable ct,
            if cwritable ct then ct\<lparr>cfile := CRows (map ?f (rows @ [new_row]))\<rparr> else ct)"
      by simp
    moreover have "map ?f (rows @ [new_row]) = rows @ [?f new_row]"
      using id by (simp add: map_idI)
    ultimately show ?thesis using l a None n2
      by (simp add: csv_add_aircraft_def csv_put_def)
  next
    case (Some d)
    then have s2: "csv_replace_first (callsign r) (?f new_row) rows = Some (map ?f d)"
      using csv_replace_first_map [OF id, of "callsign r" new_row] by simp
    from csv_replace_first_keys [OF Some ks kn]
    have "list_all keys_std d" "d \<noteq> []" by auto
    from csv_save_keys_std [OF this, of ct]
    show ?thesis using l a Some s2
      by (simp add: csv_add_aircraft_def csv_put_def)
  qed
qed

section \<open>Adding a record whose callsign is stored\<close>




section \<open>Adding the same record twice\<close>

lemma is_obj_split:
  "list_all is_obj data \<Longrightarrow> PStr c \<in> set (map elem_callsign data) \<Longrightarrow>
   \<exists>pre d post. data = pre @ JObj d # post \<and> list_all is_obj pre
      \<and> PStr c \<notin> set (map elem_callsign pre) \<and> row_callsign d = PStr c"
proof -
  assume o: "list_all is_obj data" and p: "PStr c \<in> set (map elem_callsign data)"
  from first_match_split [OF p] obtain pre x post where
    s: "data = pre @ x # post" "PStr c \<notin> set (map elem_callsign pre)" "elem_callsign x = PStr c"
    by blast
  then obtain d where "x = JObj d" by (cases x) auto
  then show ?thesis using s o by auto
qed



lemma csv_put_std:
  "list_all P rows \<Longrightarrow> P w \<Longrightarrow> list_all P (csv_put c w rows)"
proof (cases "PStr c \<in> set (map row_callsign rows)")
  case True
  assume a: "list_all P rows" "P w"
  from first_match_split [OF True] obtain pre x post where
    s: "rows = pre @ x # post" "PStr c \<notin> set (map row_callsign pre)" "row_callsign x = PStr c"
    by blast
  then have "csv_put c w rows = pre @ w # post"
    by (simp add: csv_put_def csv_replace_first_found)
  then show ?thesis using a s(1) by simp
next
  case False
  assume a: "list_all P rows" "P w"
  have "csv_put c w rows = rows @ [w]"
    using False by (simp add: csv_put_def csv_replace_first_absent)
  then show ?thesis using a by simp
qed





section \<open>The callsign as a key\<close>

lemma json_inv_load:
  "json_inv st \<Longrightarrow>
   \<exists>data. json_load_data st = Inr data \<and> list_all is_obj data
      \<and> distinct (map elem_callsign data)"
  by (auto simp: json_inv_def json_load_data_def split: json_file.splits)

lemma json_inv_saved:
  "list_all is_obj data \<Longrightarrow> distinct (map elem_callsign data) \<Longrightarrow> json_inv st \<Longrightarrow>
   json_inv (snd (json_save_data st data))"
  by (simp add: json_save_data_def json_inv_def)

text \<open>The list after the scan of an upsert.\<close>

lemma json_scan_inv:
  assumes o: "list_all is_obj data" and d: "distinct (map elem_callsign data)"
  shows "\<exists>data1. (case json_scan (callsign r) (to_dict r) data of
                     Inr (Some x) \<Rightarrow> x = data1
                   | Inr None \<Rightarrow> data @ [JObj (to_dict r)] = data1
                   | Inl e \<Rightarrow> False)
           \<and> list_all is_obj data1 \<and> distinct (map elem_callsign data1)"
proof (cases "PStr (callsign r) \<in> set (map elem_callsign data)")
  case True
  from is_obj_split [OF o True] obtain pre x post where
    s: "data = pre @ JObj x # post" "list_all is_obj pre"
       "PStr (callsign r) \<notin> set (map elem_callsign pre)" "row_callsign x = PStr (callsign r)"
    by blast
  let ?d1 = "pre @ JObj (dict_update x (to_dict r)) # post"
  have 1: "json_scan (callsign r) (to_dict r) data = Inr (Some ?d1)"
    using s by (simp add: json_scan_found)
  have "map elem_callsign ?d1 = map elem_callsign data"
    using s by (simp add: dict_update_callsign)
  then have "distinct (map elem_callsign ?d1)" using d by simp
  moreover have "list_all is_obj ?d1" using o s by simp
  ultimately show ?thesis using 1 by simp
next
  case False
  have 1: "json_scan (callsign r) (to_dict r) data = Inr None"
    using o False by (rule json_scan_absent)
  have "distinct (map elem_callsign (data @ [JObj (to_dict r)]))"
    using d False by (simp add: to_dict_callsign)
  then show ?thesis using 1 o by simp
qed

lemma json_add_each_inv:
  "list_all is_obj data \<Longrightarrow> distinct (map elem_callsign data) \<Longrightarrow>
   \<exists>data1 k. json_add_each as data n = Inr (data1, k) \<and> list_all is_obj data1
      \<and> distinct (map elem_callsign data1)"
proof (induction as arbitrary: data n)
  case Nil
  then show ?case by simp
next
  case (Cons a as)
  from json_scan_inv [OF Cons.prems, of a] obtain data1 where
    c: "case json_scan (callsign a) (to_dict a) data of
          Inr (Some x) \<Rightarrow> x = data1
        | Inr None \<Rightarrow> data @ [JObj (to_dict a)] = data1
        | Inl e \<Rightarrow> False"
    and i: "list_all is_obj data1" "distinct (map elem_callsign data1)"
    by blast
  from Cons.IH [OF i, of "n + 1"] obtain data2 k where
    r: "json_add_each as data1 (n + 1) = Inr (data2, k)" "list_all is_obj data2"
       "distinct (map elem_callsign data2)"
    by blast
  have "json_add_each (a # as) data n = Inr (data2, k)"
    using c r(1) by (auto split: sum.splits option.splits)
  then show ?case using r by blast
qed

lemma json_apply_inv: "json_inv st \<Longrightarrow> json_inv (json_apply op st)"
proof (cases op)
  case (Add a)
  assume inv: "json_inv st"
  from json_inv_load [OF inv] obtain data where
    l: "json_load_data st = Inr data" and o: "list_all is_obj data"
    and d: "distinct (map elem_callsign data)" by blast
  from json_scan_inv [OF o d, of a] obtain data1 where
    c: "case json_scan (callsign a) (to_dict a) data of
          Inr (Some x) \<Rightarrow> x = data1
        | Inr None \<Rightarrow> data @ [JObj (to_dict a)] = data1
        | Inl e \<Rightarrow> False"
    and i: "list_all is_obj data1" "distinct (map elem_callsign data1)"
    by blast
  have "json_add_aircraft a st = Inr (json_save_data st data1)"
    using l c by (auto simp: json_add_aircraft_def split: sum.splits option.splits)
  then have "json_apply op st = snd (json_save_data st data1)"
    using Add by (simp add: json_apply_def split: prod.splits)
  then show ?thesis using json_inv_saved [OF i inv] by simp
next
  case (AddMany as)
  assume inv: "json_inv st"
  from json_inv_load [OF inv] obtain data where
    l: "json_load_data st = Inr data" and o: "list_all is_obj data"
    and d: "distinct (map elem_callsign data)" by blast
  from json_add_each_inv [OF o d, of as 0] obtain data1 k where
    r: "json_add_each as data 0 = Inr (data1, k)" and i: "list_all is_obj data1"
       "distinct (map elem_callsign data1)"
    by blast
  have "json_apply op st = snd (json_save_data st data1)"
    using AddMany l r by (simp add: json_apply_def json_add_multiple_aircraft_def)
  then show ?thesis using json_inv_saved [OF i inv] by simp
next
  case (Delete c)
  assume inv: "json_inv st"
  from json_inv_load [OF inv] obtain data where
    l: "json_load_data st = Inr data" and o: "list_all is_obj data"
    and d: "distinct (map elem_callsign data)" by blast
  let ?new = "filter (\<lambda>e. elem_callsign e \<noteq> PStr c) data"
  have i: "list_all is_obj ?new" "distinct (map elem_callsign ?new)"
    using o d by (auto simp: list_all_iff distinct_map_filter)
  have "json_apply op st = snd (json_save_data st ?new) \<or> json_apply op st = st"
    using Delete l o
    by (simp add: json_apply_def json_delete_aircraft_def filter_err_json_keep
        split: prod.splits)
  then show ?thesis using json_inv_saved [OF i inv] inv by auto
next
  case Clear
  assume inv: "json_inv st"
  have "json_inv (snd (json_save_data st []))" using inv by (simp add: json_inv_saved)
  then show ?thesis using Clear by (simp add: json_apply_def json_clear_def)
qed

lemma json_inv_writable: "json_inv (st\<lparr>jwritable := w\<rparr>) = json_inv st"
  by (simp add: json_inv_def)

lemma json_run_inv: "json_inv st \<Longrightarrow> json_inv (json_run ops st)"
proof (induction ops arbitrary: st)
  case Nil
  then show ?case by simp
next
  case (Cons x ops)
  obtain op w where x: "x = (op, w)" by (cases x)
  have "json_inv (json_apply op (st\<lparr>jwritable := w\<rparr>))"
    using Cons.prems by (simp add: json_apply_inv json_inv_writable)
  then show ?case using Cons.IH x by simp
qed

lemma csv_inv_load:
  "csv_inv ct \<Longrightarrow>
   \<exists>rows. csv_load_data ct = Inr rows \<and> list_all std_row rows \<and> list_all any_values rows
      \<and> distinct (map row_callsign rows)"
proof (cases "cfile ct")
  case (CRows rows)
  assume "csv_inv ct"
  then have i: "list_all std_row rows" "list_all any_values rows"
    "distinct (map row_callsign rows)"
    using CRows by (simp_all add: csv_inv_def)
  then have "filter any_values rows = rows" by (simp add: filter_id_conv list_all_iff)
  then have "csv_load_data ct = Inr rows" using CRows by (simp add: csv_load_data_def)
  then show ?thesis using i by blast
qed (auto simp: csv_inv_def csv_load_data_def)

lemma csv_save_all_keys_std:
  "list_all keys_std data \<Longrightarrow>
   csv_save_data st data =
     Inr (cwritable st,
          if cwritable st then st\<lparr>cfile := CRows (map (csv_written fieldnames) data)\<rparr> else st)"
proof (cases "data = []")
  case True
  then show ?thesis by (simp add: csv_save_data_def)
next
  case False
  assume "list_all keys_std data"
  then show ?thesis using False by (rule csv_save_keys_std)
qed

lemma std_any_good: "std_row row \<Longrightarrow> any_values row \<Longrightarrow> good_row row"
  by (simp add: good_row_def std_row_written) (simp add: std_row_def keys_std_def)

lemma new_row_good: "aircraft_to_row r = Inr new_row \<Longrightarrow> good_row new_row"
proof -
  assume a: "aircraft_to_row r = Inr new_row"
  have "row_callsign (csv_written fieldnames new_row) = PStr (callsign r)"
    using new_row_callsign [OF a] by (rule written_callsign)
  moreover have "row_callsign new_row = PStr (callsign r)"
    using new_row_callsign [OF a] by (simp add: row_callsign_def)
  ultimately show ?thesis
    using aircraft_to_row_keys [OF a] new_row_written_any [OF a] by (simp add: good_row_def)
qed

lemma csv_inv_saved_good:
  assumes g: "list_all good_row data" and d: "distinct (map row_callsign data)"
    and inv: "csv_inv st"
  shows "\<exists>st'. csv_save_data st data = Inr (cwritable st, st') \<and> csv_inv st'"
proof -
  let ?w = "map (csv_written fieldnames) data"
  have ks: "list_all keys_std data" using g by (auto simp: list_all_iff good_row_def)
  have 1: "list_all std_row ?w" by (simp add: list_all_iff written_std)
  have 2: "list_all any_values ?w" using g by (auto simp: list_all_iff good_row_def)
  have eq: "map row_callsign ?w = map row_callsign data"
    using g by (auto simp: list_all_iff good_row_def)
  have 3: "distinct (map row_callsign ?w)" unfolding eq by (rule d)
  have "csv_inv (st\<lparr>cfile := CRows ?w\<rparr>)" using 1 2 3 by (simp add: csv_inv_def)
  then show ?thesis using csv_save_all_keys_std [OF ks, of st] inv by auto
qed

lemma indexed_append:
  assumes i: "indexed data m" and n: "k0 \<notin> set (map row_callsign data)"
    and c: "row_callsign new = k0"
  shows "indexed (data @ [new]) (m(k0 \<mapsto> length data))"
proof -
  have 1: "i < length (data @ [new]) \<and> row_callsign ((data @ [new]) ! i) = k"
    if "(m(k0 \<mapsto> length data)) k = Some i" for k i
  proof (cases "k = k0")
    case True
    then have "i = length data" using that by simp
    then show ?thesis using True c by (simp add: nth_append)
  next
    case False
    then have "m k = Some i" using that by simp
    then have "i < length data \<and> row_callsign (data ! i) = k" using i by (simp add: indexed_def)
    then show ?thesis by (simp add: nth_append)
  qed
  have 2: "(m(k0 \<mapsto> length data)) (row_callsign ((data @ [new]) ! i)) \<noteq> None"
    if "i < length (data @ [new])" for i
  proof (cases "i < length data")
    case True
    then have "m (row_callsign (data ! i)) \<noteq> None" using i by (simp add: indexed_def)
    then show ?thesis using True by (simp add: nth_append)
  next
    case False
    then have "i = length data" using that by simp
    then show ?thesis using c by simp
  qed
  show ?thesis unfolding indexed_def using 1 2 by blast
qed

lemma indexed_update:
  assumes i: "indexed data m" and j: "j < length data"
    and c: "row_callsign new = row_callsign (data ! j)"
  shows "indexed (data[j := new]) m \<and> map row_callsign (data[j := new]) = map row_callsign data"
proof -
  have eq: "row_callsign (data[j := new] ! i) = row_callsign (data ! i)" if "i < length data" for i
    using that c by (cases "i = j") simp_all
  have "map row_callsign (data[j := new]) = map row_callsign data"
    by (rule nth_equalityI) (simp_all add: eq)
  moreover have "indexed (data[j := new]) m"
    using i eq by (simp add: indexed_def)
  ultimately show ?thesis by simp
qed

lemma keys_std_item: "keys_std row \<Longrightarrow> dict_item row ''callsign'' = Inr (row_callsign row)"
proof -
  assume "keys_std row"
  from keys_std_callsign [OF this] obtain v where "dict_item row ''callsign'' = Inr v" by blast
  then show ?thesis
    by (auto simp: dict_item_def row_callsign_def dict_get_def split: option.splits)
qed

lemma csv_index_indexed:
  "list_all keys_std rows \<Longrightarrow> distinct (map row_callsign (pre @ rows)) \<Longrightarrow> indexed pre m \<Longrightarrow>
   \<exists>m'. csv_index rows (length pre) m = Inr m' \<and> indexed (pre @ rows) m'"
proof (induction rows arbitrary: pre m)
  case Nil
  then show ?case by simp
next
  case (Cons row rows)
  have k: "dict_item row ''callsign'' = Inr (row_callsign row)"
    using Cons.prems(1) by (simp add: keys_std_item)
  have "row_callsign row \<notin> set (map row_callsign pre)" using Cons.prems(2) by auto
  from indexed_append [OF Cons.prems(3) this refl]
  have i1: "indexed (pre @ [row]) (m(row_callsign row \<mapsto> length pre))" .
  have d1: "distinct (map row_callsign ((pre @ [row]) @ rows))" using Cons.prems(2) by simp
  have k1: "list_all keys_std rows" using Cons.prems(1) by simp
  from Cons.IH [OF k1 d1 i1] obtain m' where
    "csv_index rows (length (pre @ [row])) (m(row_callsign row \<mapsto> length pre)) = Inr m'"
    "indexed ((pre @ [row]) @ rows) m'" by blast
  then show ?case using k by simp
qed

lemma csv_add_each_inv:
  "list_all good_row data \<Longrightarrow> distinct (map row_callsign data) \<Longrightarrow> indexed data m \<Longrightarrow>
   csv_add_each as data m n = Inr (data1, k) \<Longrightarrow>
   list_all good_row data1 \<and> distinct (map row_callsign data1)"
proof (induction as arbitrary: data m n)
  case Nil
  then show ?case by simp
next
  case (Cons a as)
  from Cons.prems(4) obtain new_row where nr: "aircraft_to_row a = Inr new_row"
    by (cases "aircraft_to_row a") auto
  have gn: "good_row new_row" using nr by (rule new_row_good)
  have cn: "row_callsign new_row = PStr (callsign a)"
    using new_row_callsign [OF nr] by (simp add: row_callsign_def)
  show ?case
  proof (cases "m (PStr (callsign a))")
    case None
    have nin: "PStr (callsign a) \<notin> set (map row_callsign data)"
    proof
      assume "PStr (callsign a) \<in> set (map row_callsign data)"
      then obtain i where "i < length data" "row_callsign (data ! i) = PStr (callsign a)"
        by (auto simp: in_set_conv_nth)
      then show False using Cons.prems(3) None by (auto simp: indexed_def)
    qed
    have 1: "list_all good_row (data @ [new_row])" using Cons.prems(1) gn by simp
    have 2: "distinct (map row_callsign (data @ [new_row]))"
      using Cons.prems(2) nin cn by simp
    have 3: "indexed (data @ [new_row]) (m(PStr (callsign a) \<mapsto> length data))"
      using Cons.prems(3) nin cn by (rule indexed_append)
    have "csv_add_each as (data @ [new_row]) (m(PStr (callsign a) \<mapsto> length data)) (n + 1)
            = Inr (data1, k)"
      using Cons.prems(4) nr None by simp
    from Cons.IH [OF 1 2 3 this] show ?thesis .
  next
    case (Some i)
    then have i: "i < length data" "row_callsign (data ! i) = PStr (callsign a)"
      using Cons.prems(3) by (auto simp: indexed_def)
    from indexed_update [OF Cons.prems(3) i(1), of new_row] cn i(2)
    have u: "indexed (data[i := new_row]) m"
      "map row_callsign (data[i := new_row]) = map row_callsign data" by auto
    have 1: "list_all good_row (data[i := new_row])"
      using Cons.prems(1) gn
      by (auto simp: list_all_iff dest!: set_update_subset_insert [THEN subsetD])
    have 2: "distinct (map row_callsign (data[i := new_row]))"
      using Cons.prems(2) u(2) by simp
    have "csv_add_each as (data[i := new_row]) m (n + 1) = Inr (data1, k)"
      using Cons.prems(4) nr Some i(1) by simp
    from Cons.IH [OF 1 2 u(1) this] show ?thesis .
  qed
qed

lemma csv_put_distinct:
  assumes d: "distinct (map row_callsign rows)" and w: "row_callsign w = PStr c"
  shows "distinct (map row_callsign (csv_put c w rows))"
proof (cases "PStr c \<in> set (map row_callsign rows)")
  case True
  from first_match_split [OF True] obtain pre x post where
    s: "rows = pre @ x # post" "PStr c \<notin> set (map row_callsign pre)" "row_callsign x = PStr c"
    by blast
  then have "csv_put c w rows = pre @ w # post"
    by (simp add: csv_put_def csv_replace_first_found)
  then have "map row_callsign (csv_put c w rows) = map row_callsign rows"
    using s w by simp
  then show ?thesis using d by simp
next
  case False
  have "csv_put c w rows = rows @ [w]"
    using False by (simp add: csv_put_def csv_replace_first_absent)
  then show ?thesis using d False w by simp
qed

lemma csv_apply_inv: "csv_inv st \<Longrightarrow> csv_inv (csv_apply op st)"
proof (cases op)
  case (Add a)
  assume inv: "csv_inv st"
  from csv_inv_load [OF inv] obtain rows where
    l: "csv_load_data st = Inr rows" and s: "list_all std_row rows"
    and an: "list_all any_values rows" and d: "distinct (map row_callsign rows)" by blast
  show ?thesis
  proof (cases "aircraft_to_row a")
    case (Inl e)
    then have "csv_add_aircraft a st = Inl e" using l by (simp add: csv_add_aircraft_def)
    then show ?thesis using Add inv by (simp add: csv_apply_def)
  next
    case (Inr new_row)
    let ?w = "csv_written fieldnames new_row"
    let ?rows1 = "csv_put (callsign a) ?w rows"
    have wc: "row_callsign ?w = PStr (callsign a)"
      using new_row_callsign [OF Inr] by (rule written_callsign)
    have 1: "list_all std_row ?rows1" using s written_std by (rule csv_put_std)
    have 2: "list_all any_values ?rows1"
      using an new_row_written_any [OF Inr] by (rule csv_put_std)
    have 3: "distinct (map row_callsign ?rows1)" using d wc by (rule csv_put_distinct)
    have "csv_inv (st\<lparr>cfile := CRows ?rows1\<rparr>)" using 1 2 3 by (simp add: csv_inv_def)
    then show ?thesis using csv_add_std [OF l s Inr] Add inv by (simp add: csv_apply_def)
  qed
next
  case (AddMany as)
  assume inv: "csv_inv st"
  from csv_inv_load [OF inv] obtain rows where
    l: "csv_load_data st = Inr rows" and s: "list_all std_row rows"
    and an: "list_all any_values rows" and d: "distinct (map row_callsign rows)" by blast
  show ?thesis
  proof (cases "as = []")
    case True
    then show ?thesis using AddMany inv
      by (simp add: csv_apply_def csv_add_multiple_aircraft_def)
  next
    case False
    have ks: "list_all keys_std rows"
      using s by (auto simp: list_all_iff std_row_def keys_std_def)
    have g: "list_all good_row rows" using s an by (auto simp: list_all_iff std_any_good)
    have "indexed [] Map.empty" by (simp add: indexed_def)
    from csv_index_indexed [OF ks _ this] d obtain m where
      m: "csv_index rows 0 Map.empty = Inr m" "indexed rows m" by auto
    show ?thesis
    proof (cases "csv_add_each as rows m 0")
      case (Inl e)
      then have "csv_add_multiple_aircraft as st = Inl e"
        using False l m(1) by (simp add: csv_add_multiple_aircraft_def)
      then show ?thesis using AddMany inv by (simp add: csv_apply_def)
    next
      case (Inr res)
      obtain data1 k where res: "res = (data1, k)" by (cases res)
      from csv_add_each_inv [OF g d m(2) Inr [unfolded res]]
      have "list_all good_row data1" "distinct (map row_callsign data1)" by auto
      from csv_inv_saved_good [OF this inv] obtain st' where
        sv: "csv_save_data st data1 = Inr (cwritable st, st')" "csv_inv st'" by blast
      have "csv_add_multiple_aircraft as st = Inr (k, st')"
        using False l m(1) Inr res sv(1) by (simp add: csv_add_multiple_aircraft_def)
      then show ?thesis using AddMany sv(2) by (simp add: csv_apply_def)
    qed
  qed
next
  case (Delete c)
  assume inv: "csv_inv st"
  from csv_inv_load [OF inv] obtain rows where
    l: "csv_load_data st = Inr rows" and s: "list_all std_row rows"
    and an: "list_all any_values rows" and d: "distinct (map row_callsign rows)" by blast
  let ?new = "filter (\<lambda>row. \<not> py_eq (dict_get row ''callsign'' PNone) (PStr c)) rows"
  have "list_all good_row ?new" using s an by (auto simp: list_all_iff std_any_good)
  moreover have "distinct (map row_callsign ?new)" using d by (simp add: distinct_map_filter)
  ultimately obtain st' where
    sv: "csv_save_data st ?new = Inr (cwritable st, st')" "csv_inv st'"
    using csv_inv_saved_good [OF _ _ inv] by blast
  have "csv_delete_aircraft c st = Inr (True, st') \<or> csv_delete_aircraft c st = Inr (False, st)"
    using l sv(1) by (simp add: csv_delete_aircraft_def Let_def)
  then show ?thesis using Delete sv(2) inv by (auto simp: csv_apply_def)
next
  case Clear
  assume inv: "csv_inv st"
  have "list_all good_row []" "distinct (map row_callsign [])" by simp_all
  from csv_inv_saved_good [OF this inv] obtain st' where
    "csv_save_data st [] = Inr (cwritable st, st')" "csv_inv st'" by blast
  then show ?thesis using Clear by (simp add: csv_apply_def csv_clear_def)
qed

lemma csv_inv_writable: "csv_inv (st\<lparr>cwritable := w\<rparr>) = csv_inv st"
  by (simp add: csv_inv_def)

lemma csv_run_inv: "csv_inv st \<Longrightarrow> csv_inv (csv_run ops st)"
proof (induction ops arbitrary: st)
  case Nil
  then show ?case by simp
next
  case (Cons x ops)
  obtain op w where x: "x = (op, w)" by (cases x)
  have "csv_inv (csv_apply op (st\<lparr>cwritable := w\<rparr>))"
    using Cons.prems by (simp add: csv_apply_inv csv_inv_writable)
  then show ?case using Cons.IH x by simp
qed


text \<open>
  C9 (the callsign is a unique key). From an empty store (the file missing or holding no
  record), after any sequence of \<open>add_aircraft\<close>, \<open>add_multiple_aircraft\<close>,
  \<open>delete_aircraft\<close> and \<open>clear\<close>, each with the file writable or not, the store loads and
  no two of its records have the same callsign, on both backends. The saves on the way
  never raise: every call that raises does so before it writes.
\<close>

theorem callsign_stays_unique:
  "(jfile st = JMissing \<or> jfile st = JArray [] \<longrightarrow>
      (\<exists>data. json_load_data (json_run ops st) = Inr data
         \<and> distinct (map elem_callsign data)))
   \<and> (cfile ct = CMissing \<or> cfile ct = CRows [] \<longrightarrow>
      (\<exists>rows. csv_load_data (csv_run ops ct) = Inr rows
         \<and> distinct (map row_callsign rows)))"
proof (intro conjI impI)
  assume "jfile st = JMissing \<or> jfile st = JArray []"
  then have "json_inv st" by (auto simp: json_inv_def)
  then have "json_inv (json_run ops st)" by (rule json_run_inv)
  from json_inv_load [OF this]
  show "\<exists>data. json_load_data (json_run ops st) = Inr data \<and> distinct (map elem_callsign data)"
    by blast
next
  assume "cfile ct = CMissing \<or> cfile ct = CRows []"
  then have "csv_inv ct" by (auto simp: csv_inv_def)
  then have "csv_inv (csv_run ops ct)" by (rule csv_run_inv)
  from csv_inv_load [OF this]
  show "\<exists>rows. csv_load_data (csv_run ops ct) = Inr rows \<and> distinct (map row_callsign rows)"
    by blast
qed

theorem callsign_stays_unique_witness:
  "(\<exists>data. json_load_data
       (json_run [(AddMany [afl101, ual202], True), (Add afl101_new, True),
                  (Delete ''UAL202'', False), (Add ual202, True), (Clear, True),
                  (Add afl101, True)]
          \<lparr>jfile = JArray [], jwritable = True\<rparr>) = Inr data
      \<and> distinct (map elem_callsign data))
   \<and> (\<exists>rows. csv_load_data
       (csv_run [(AddMany [afl101, ual202], True), (Add afl101_new, True),
                 (Delete ''UAL202'', False), (Add ual202, True), (Clear, True),
                 (Add afl101, True)]
          \<lparr>cfile = CRows [], cwritable = True\<rparr>) = Inr rows
      \<and> distinct (map row_callsign rows))"
proof -
  let ?ops = "[(AddMany [afl101, ual202], True), (Add afl101_new, True),
               (Delete ''UAL202'', False), (Add ual202, True), (Clear, True),
               (Add afl101, True)]"
  let ?st = "\<lparr>jfile = JArray [], jwritable = True\<rparr>"
  let ?ct = "\<lparr>cfile = CRows [], cwritable = True\<rparr>"
  note T = callsign_stays_unique [of ?st ?ops ?ct]
  have jh: "jfile ?st = JMissing \<or> jfile ?st = JArray []" by simp
  have ch: "cfile ?ct = CMissing \<or> cfile ?ct = CRows []" by simp
  show ?thesis
    using T [THEN conjunct1, rule_format, OF jh] T [THEN conjunct2, rule_format, OF ch]
    by (rule conjI)
qed

section \<open>Queries by criteria\<close>

lemma json_matches_selected: "json_matches (JObj d) c = Inr (json_selected c d)"
  by (induction c) (auto simp: json_selected_def split: option.splits)

lemma filter_err_total:
  "\<forall>x \<in> set xs. p x = Inr (q x) \<Longrightarrow> filter_err p xs = Inr (filter q xs)"
  by (induction xs) simp_all

lemma cast_objects: "cast_to_object_list (map JObj ds) = Inr (map from_dict ds)"
  by (induction ds) (simp_all add: cast_to_object_list_def)

lemma json_get_selected:
  assumes l: "json_load_data st = Inr (map JObj ds)"
  shows "json_get_aircraft crit st =
           Inr (map from_dict (filter (json_selected (case crit of None \<Rightarrow> [] | Some c \<Rightarrow> c)) ds))"
proof (cases "crit = None \<or> crit = Some []")
  case True
  then have "json_get_aircraft crit st = Inr (map from_dict ds)"
    using l by (auto simp: json_get_aircraft_def cast_objects)
  moreover have "filter (json_selected []) ds = ds" by (simp add: json_selected_def)
  ultimately show ?thesis using True by auto
next
  case False
  then obtain c where c: "crit = Some c" "c \<noteq> []" by (cases crit) auto
  have "filter_err (\<lambda>item. json_matches item c) (map JObj ds)
          = Inr (filter (\<lambda>item. case item of JObj d \<Rightarrow> json_selected c d | _ \<Rightarrow> False) (map JObj ds))"
    by (rule filter_err_total) (auto simp: json_matches_selected)
  moreover have "filter (\<lambda>item. case item of JObj d \<Rightarrow> json_selected c d | _ \<Rightarrow> False) (map JObj ds)
          = map JObj (filter (json_selected c) ds)"
    by (induction ds) simp_all
  ultimately show ?thesis using l c by (simp add: json_get_aircraft_def cast_objects)
qed

lemma csv_coerce_text:
  "is_PStr cell \<or> cell = PNone \<Longrightarrow> csv_coerce key cell = Inr (cell_value key cell)"
  by (cases cell)
     (auto simp: csv_coerce_def cell_value_def numeric_fields_def py_lower_def
       parse_float_def py_strip_def split_sign_def parse_unsigned_def
       split: option.splits)

lemma text_row_get: "text_row row \<Longrightarrow> is_PStr (dict_get row k PNone) \<or> dict_get row k PNone = PNone"
proof (cases "map_of row k")
  case None
  then show ?thesis by (simp add: dict_get_def)
next
  case (Some v)
  assume "text_row row"
  moreover have "(k, v) \<in> set row" using Some by (rule map_of_SomeD)
  ultimately have "is_PStr v \<or> v = PNone" by (auto simp: text_row_def list_all_iff)
  then show ?thesis using Some by (simp add: dict_get_def)
qed

lemma csv_matches_selected: "text_row row \<Longrightarrow> csv_matches row c = Inr (csv_selected c row)"
proof (induction c)
  case Nil
  then show ?case by (simp add: csv_selected_def)
next
  case (Cons x c)
  obtain k v where x: "x = (k, v)" by (cases x)
  have "csv_coerce k (dict_get row k PNone) = Inr (cell_value k (dict_get row k PNone))"
    using text_row_get [OF Cons.prems] by (rule csv_coerce_text)
  then show ?case using Cons x by (simp add: csv_selected_def)
qed

lemma csv_select_selected:
  "list_all text_row rows \<Longrightarrow>
   csv_select c rows = map_err row_to_aircraft (filter (csv_selected c) rows)"
proof (induction rows)
  case Nil
  then show ?case by simp
next
  case (Cons row rows)
  then show ?case by (simp add: csv_matches_selected)
qed

lemmas aircraft_eval =
  row_to_aircraft_def dict_item_def new_aircraft_def validate_callsign_def
  validate_country_def validate_velocity_def validate_altitude_def py_max_def dict_get_def

lemma afl101_csv_back: "row_to_aircraft afl101_csv = Inr afl101"
  by (simp add: afl101_csv_def afl101_def aircraft_eval parse_float_eval)

lemma afl101_odd_back: "row_to_aircraft afl101_odd_csv = Inr afl101"
  by (simp add: afl101_odd_csv_def afl101_def aircraft_eval parse_float_eval)

lemma afl101_bad_back: "row_to_aircraft afl101_bad_csv = Inl ValueError"
  by (simp add: afl101_bad_csv_def aircraft_eval parse_float_eval)


text \<open>
  C8 as stated (a stored value that cannot be coerced is a non-match, not an error) fails
  in the CSV store: a velocity cell that is not a number is compared as 0.0, so the row
  matches the criteria \<open>velocity = 0.0\<close>, and the query then raises on the conversion of
  the row. In the same way an \<open>on_ground\<close> cell that is no boolean is compared as false
  and its record is returned for \<open>on_ground = False\<close>.
\<close>

theorem unparsable_cell_is_compared_as_zero:
  "csv_matches afl101_bad_csv [(''velocity'', PFloat (Fin 0))] = Inr True
   \<and> csv_get_aircraft (Some [(''velocity'', PFloat (Fin 0))])
        \<lparr>cfile = CRows [afl101_bad_csv], cwritable = True\<rparr> = Inl ValueError
   \<and> csv_get_aircraft (Some [(''on_ground'', PBool False)])
        \<lparr>cfile = CRows [afl101_odd_csv], cwritable = True\<rparr> = Inr [afl101]"
proof -
  have m: "csv_matches afl101_bad_csv [(''velocity'', PFloat (Fin 0))] = Inr True"
    by (simp add: afl101_bad_csv_def csv_coerce_def dict_get_def parse_float_eval py_eq_def
        fl_eq_def)
  have a: "any_values afl101_bad_csv" "any_values afl101_odd_csv"
    by (simp_all add: any_values_def afl101_bad_csv_def afl101_odd_csv_def)
  have g: "csv_get_aircraft (Some [(''velocity'', PFloat (Fin 0))])
        \<lparr>cfile = CRows [afl101_bad_csv], cwritable = True\<rparr> = Inl ValueError"
    using m a by (simp add: csv_get_aircraft_def csv_load_data_def afl101_bad_back)
  have m2: "csv_matches afl101_odd_csv [(''on_ground'', PBool False)] = Inr True"
    by (simp add: afl101_odd_csv_def csv_coerce_def dict_get_def py_lower_def
        py_lower_char_def lower_table_def py_eq_def fl_eq_def)
  have g2: "csv_get_aircraft (Some [(''on_ground'', PBool False)])
        \<lparr>cfile = CRows [afl101_odd_csv], cwritable = True\<rparr> = Inr [afl101]"
    using m2 a by (simp add: csv_get_aircraft_def csv_load_data_def afl101_odd_back)
  show ?thesis using m g g2 by simp
qed


text \<open>
  C8, amended. \<open>get_aircraft(criteria)\<close> returns the records of exactly the stored
  elements that have every key of the criteria with an equal value, in order; \<open>None\<close> and
  the empty criteria select every record. In the CSV store the stored value of a numeric
  key is the cell read by \<open>float\<close>, 0.0 for an empty, missing or unreadable cell, and that
  of \<open>on_ground\<close> is whether the cell is \<open>true\<close> in lower case; so a numeric cell that is
  not a number is a non-match for every criteria value that is not equal to 0.0. JSON: on
  a store that loads as objects. CSV: the result is the conversion of the selected rows.
\<close>

theorem get_aircraft_selects:
  "(json_load_data st = Inr (map JObj ds) \<longrightarrow>
      json_get_aircraft crit st =
        Inr (map from_dict
               (filter (json_selected (case crit of None \<Rightarrow> [] | Some c \<Rightarrow> c)) ds)))
   \<and> (csv_load_data ct = Inr rows \<and> list_all text_row rows \<longrightarrow>
      csv_get_aircraft crit ct =
        map_err row_to_aircraft
          (filter (csv_selected (case crit of None \<Rightarrow> [] | Some c \<Rightarrow> c)) rows))
   \<and> json_selected [] d \<and> csv_selected [] row
   \<and> (text_row row \<and> key \<in> set numeric_fields \<and> dict_get row key PNone = PStr s
        \<and> parse_float s = None \<and> (key, v) \<in> set c \<and> \<not> py_eq (PFloat (Fin 0)) v \<longrightarrow>
      csv_matches row c = Inr False)"
proof (intro conjI impI)
  assume "json_load_data st = Inr (map JObj ds)"
  then show "json_get_aircraft crit st =
        Inr (map from_dict
               (filter (json_selected (case crit of None \<Rightarrow> [] | Some c \<Rightarrow> c)) ds))"
    by (rule json_get_selected)
next
  assume h: "csv_load_data ct = Inr rows \<and> list_all text_row rows"
  have full: "filter (csv_selected []) rows = rows" by (simp add: csv_selected_def)
  show "csv_get_aircraft crit ct =
        map_err row_to_aircraft
          (filter (csv_selected (case crit of None \<Rightarrow> [] | Some c \<Rightarrow> c)) rows)"
  proof (cases crit)
    case None
    then show ?thesis using h full by (simp add: csv_get_aircraft_def)
  next
    case (Some c)
    then show ?thesis using h full
      by (cases "c = []") (simp_all add: csv_get_aircraft_def csv_select_selected)
  qed
next
  show "json_selected [] d" by (simp add: json_selected_def)
next
  show "csv_selected [] row" by (simp add: csv_selected_def)
next
  assume h: "text_row row \<and> key \<in> set numeric_fields \<and> dict_get row key PNone = PStr s
        \<and> parse_float s = None \<and> (key, v) \<in> set c \<and> \<not> py_eq (PFloat (Fin 0)) v"
  then have "cell_value key (dict_get row key PNone) = PFloat (Fin 0)"
    by (simp add: cell_value_def)
  then have "\<not> (case (key, v) of (k, x) \<Rightarrow> py_eq (cell_value k (dict_get row k PNone)) x)"
    using h by simp
  moreover have "(key, v) \<in> set c" using h by simp
  ultimately have "\<not> csv_selected c row"
    unfolding csv_selected_def list_all_iff by blast
  then show "csv_matches row c = Inr False"
    using h by (simp add: csv_matches_selected)
qed

theorem get_aircraft_selects_witness:
  "json_get_aircraft (Some [(''origin_country'', PStr ''Russia''), (''on_ground'', PBool False)])
      \<lparr>jfile = JArray [JObj (to_dict afl101), JObj (to_dict ual202)], jwritable = True\<rparr>
     = Inr [from_dict (to_dict afl101)]
   \<and> csv_get_aircraft (Some [(''origin_country'', PStr ''Russia''), (''on_ground'', PBool False)])
      \<lparr>cfile = CRows [afl101_csv, ual202_csv], cwritable = True\<rparr> = Inr [afl101]
   \<and> csv_matches afl101_bad_csv [(''velocity'', PFloat (Fin (561 / 2)))] = Inr False"
proof -
  let ?crit = "[(''origin_country'', PStr ''Russia''), (''on_ground'', PBool False)]"
  let ?ds = "[to_dict afl101, to_dict ual202]"
  let ?st = "\<lparr>jfile = JArray [JObj (to_dict afl101), JObj (to_dict ual202)], jwritable = True\<rparr>"
  let ?rows = "[afl101_csv, ual202_csv]"
  let ?ct = "\<lparr>cfile = CRows ?rows, cwritable = True\<rparr>"
  let ?v = "PFloat (Fin (561 / 2))"
  note T = get_aircraft_selects
    [of ?st ?ds "Some ?crit" ?ct ?rows "[]" afl101_bad_csv "''velocity''" "''abc''" ?v
        "[(''velocity'', ?v)]"]
  have jh: "json_load_data ?st = Inr (map JObj ?ds)" by (simp add: json_load_data_def)
  have ch: "csv_load_data ?ct = Inr ?rows \<and> list_all text_row ?rows"
    by (simp add: csv_load_data_def sample_rows_any)
       (simp add: text_row_def afl101_csv_def ual202_csv_def)
  have nh: "text_row afl101_bad_csv \<and> ''velocity'' \<in> set numeric_fields
      \<and> dict_get afl101_bad_csv ''velocity'' PNone = PStr ''abc''
      \<and> parse_float ''abc'' = None \<and> (''velocity'', ?v) \<in> set [(''velocity'', ?v)]
      \<and> \<not> py_eq (PFloat (Fin 0)) ?v"
    by (simp add: text_row_def afl101_bad_csv_def numeric_fields_def dict_get_def
        parse_float_abc py_eq_def fl_eq_def)
  have js: "filter (json_selected ?crit) ?ds = [to_dict afl101]"
    by (simp add: json_selected_def to_dict_def afl101_def ual202_def py_eq_def fl_eq_def)
  have cs: "filter (csv_selected ?crit) ?rows = [afl101_csv]"
    by (simp add: csv_selected_def cell_value_def numeric_fields_def dict_get_def
        afl101_csv_def ual202_csv_def py_eq_def fl_eq_def py_lower_def py_lower_char_def
        lower_table_def)
  have 1: "json_get_aircraft (Some ?crit) ?st = Inr [from_dict (to_dict afl101)]"
    using T [THEN conjunct1, rule_format, OF jh] js by simp
  have 2: "csv_get_aircraft (Some ?crit) ?ct = Inr [afl101]"
    using T [THEN conjunct2, THEN conjunct1, rule_format, OF ch] cs
    by (simp add: afl101_csv_back)
  have 3: "csv_matches afl101_bad_csv [(''velocity'', ?v)] = Inr False"
    using T [THEN conjunct2, THEN conjunct2, THEN conjunct2, THEN conjunct2, rule_format,
             OF nh] .
  show ?thesis using 1 2 3 by simp
qed

end
